theory Spec2Isabelle
  imports Main "HOL-Library.Word" "HOL-Library.Signed_Division"
begin

unbundle bit_operations_syntax

section \<open>Data model of main.cpp\<close>

type_synonym u8 = "8 word"
type_synonym u32 = "32 word"

text \<open>\<^verbatim>\<open>struct Pixel { uint8_t r, g, b, a; }\<close>\<close>

record Pixel =
  r :: u8
  g :: u8
  b :: u8
  a :: u8

text \<open>\<^verbatim>\<open>struct QoiHeader\<close>; the decoder reads only \<open>width\<close> and \<open>height\<close>.\<close>

record QoiHeader =
  magic :: "u8 list"
  width :: u32
  height :: u32
  channels :: u8
  colorspace :: u8

text \<open>
  The ways a run of \<open>do_decode_image\<close> can fail to return normally.
  \<^item> \<open>UnknownChunk byte x y\<close>: the final \<^verbatim>\<open>else\<close> of the dispatch, which prints the
    starting byte and the pixel position (\<open>x\<close> the column \<open>j\<close>, \<open>y\<close> the row \<open>i\<close>) and
    calls \<^verbatim>\<open>exit(-1)\<close>.
  \<^item> \<open>OutOfBounds\<close>: \<^verbatim>\<open>Image::set\<close> or \<^verbatim>\<open>Image::get\<close> addressing a cell outside the
    allocated buffer. C++ leaves this undefined; the model makes it an outcome of its own.
\<close>

datatype error = UnknownChunk u8 u32 u32 | OutOfBounds

text \<open>
  \<^verbatim>\<open>class Image\<close>: the private fields \<^verbatim>\<open>a\<close>, \<^verbatim>\<open>width\<close>, \<^verbatim>\<open>height\<close> carry the prefix
  \<open>img_\<close> here, since \<open>Pixel\<close> and \<open>QoiHeader\<close> have fields of the same names. A cell
  of the buffer is \<open>None\<close> until it is written: \<^verbatim>\<open>new Pixel[n]\<close> initialises nothing.
  The size and every index are computed in \<^verbatim>\<open>uint32_t\<close>, so they wrap modulo \<open>2^32\<close>.
\<close>

record Image =
  img_a :: "Pixel option list"
  img_width :: u32
  img_height :: u32

definition Image_new :: "u32 \<Rightarrow> u32 \<Rightarrow> Image" where
  "Image_new w h = \<lparr>img_a = replicate (unat (w * h)) None, img_width = w, img_height = h\<rparr>"

definition get_width :: "Image \<Rightarrow> u32" where
  "get_width img = img_width img"

definition get_height :: "Image \<Rightarrow> u32" where
  "get_height img = img_height img"

definition Image_get :: "Image \<Rightarrow> u32 \<Rightarrow> u32 \<Rightarrow> error + Pixel option" where
  "Image_get img row col =
     (let k = unat (row * img_width img + col)
      in if k < length (img_a img) then Inr (img_a img ! k) else Inl OutOfBounds)"

definition Image_set :: "Image \<Rightarrow> u32 \<Rightarrow> u32 \<Rightarrow> Pixel \<Rightarrow> error + Image" where
  "Image_set img row col val =
     (let k = unat (row * img_width img + col)
      in if k < length (img_a img) then Inr (img\<lparr>img_a := (img_a img)[k := Some val]\<rparr>)
         else Inl OutOfBounds)"

section \<open>The pixel hash\<close>

text \<open>
  \<^verbatim>\<open>((int)(p.r * 3 + p.g * 5 + p.b * 7 + p.a * 11)) % 64\<close>: the channels are promoted
  to \<^verbatim>\<open>int\<close> before the arithmetic, and \<^verbatim>\<open>%\<close> is C's remainder, which truncates
  towards zero (\<open>smod\<close>).
\<close>

definition qoi_pix_hash :: "Pixel \<Rightarrow> int" where
  "qoi_pix_hash p = (uint (r p) * 3 + uint (g p) * 5 + uint (b p) * 7 + uint (a p) * 11) smod 64"

section \<open>The decoder\<close>

text \<open>
  \<^verbatim>\<open>in.read((char *)&x, 1)\<close> on the bytes still unread: with a byte left, \<open>x\<close> takes
  it and the stream moves on; at the end of the stream the read fails, \<open>x\<close> keeps the
  value it had, and the stream stays at its end (every later read fails too). The source
  never tests the stream's state.
\<close>

fun read_u8 :: "u8 list \<Rightarrow> u8 \<Rightarrow> u8 \<times> u8 list" where
  "read_u8 [] x = (x, [])"
| "read_u8 (c # cs) x = (c, cs)"

text \<open>
  \<^verbatim>\<open>starting_byte\<close> and \<^verbatim>\<open>second_byte\<close> are declared without an initialiser inside
  the loop body. When the read into one of them fails, the program goes on with whatever
  the variable holds (C++ calls the value indeterminate). The model takes that value as a
  parameter, one per variable and grid position, and every theorem below holds for all
  of them.
\<close>

record Indet =
  indet_starting_byte :: "u32 \<Rightarrow> u32 \<Rightarrow> u8"
  indet_second_byte :: "u32 \<Rightarrow> u32 \<Rightarrow> u8"

text \<open>
  The variables of \<open>do_decode_image\<close> that live across iterations: the locals
  \<^verbatim>\<open>memory\<close>, \<^verbatim>\<open>last_pix\<close>, \<^verbatim>\<open>run_length\<close>, and the two reference parameters, the
  stream \<^verbatim>\<open>in\<close> (its unread bytes, \<open>inp\<close>) and the image \<^verbatim>\<open>decoded\<close>.
\<close>

record DecState =
  memory :: "Pixel list"
  last_pix :: Pixel
  run_length :: u32
  inp :: "u8 list"
  decoded :: Image

text \<open>
  Lines 77 to 140 of the loop body: read the starting byte and dispatch on it. The result
  is \<^verbatim>\<open>res\<close> with the state as the chunk leaves it (\<^verbatim>\<open>memory\<close>, \<^verbatim>\<open>run_length\<close>, the
  stream), before \<^verbatim>\<open>decoded.set\<close> and \<^verbatim>\<open>last_pix = res\<close>. Sums and differences of
  channels are computed in \<^verbatim>\<open>int\<close> (integral promotion) and cut to 8 bits by the
  assignment (\<open>word_of_int\<close>); shifts and masks act on values below 256, where the
  promotion changes nothing.
\<close>

definition decode_chunk :: "Indet \<Rightarrow> u32 \<Rightarrow> u32 \<Rightarrow> DecState \<Rightarrow> error + (Pixel \<times> DecState)" where
  "decode_chunk U i j s =
     (case read_u8 (inp s) (indet_starting_byte U i j) of (starting_byte, in1) \<Rightarrow>
      let res = \<lparr>r = 0, g = 0, b = 0, a = 255\<rparr> in
      if starting_byte = 0xFE then
        (case read_u8 in1 (r res) of (x, in2) \<Rightarrow>
         case read_u8 in2 (g res) of (y, in3) \<Rightarrow>
         case read_u8 in3 (b res) of (z, in4) \<Rightarrow>
         let res = \<lparr>r = x, g = y, b = z, a = a (last_pix s)\<rparr> in
         Inr (res, s\<lparr>memory := (memory s)[nat (qoi_pix_hash res) := res], inp := in4\<rparr>))
      else if starting_byte = 0xFF then
        (case read_u8 in1 (r res) of (x, in2) \<Rightarrow>
         case read_u8 in2 (g res) of (y, in3) \<Rightarrow>
         case read_u8 in3 (b res) of (z, in4) \<Rightarrow>
         case read_u8 in4 (a res) of (w, in5) \<Rightarrow>
         let res = \<lparr>r = x, g = y, b = z, a = w\<rparr> in
         Inr (res, s\<lparr>memory := (memory s)[nat (qoi_pix_hash res) := res], inp := in5\<rparr>))
      else if drop_bit 6 starting_byte AND 3 = 0 then
        (let index = (ucast (starting_byte AND 63) :: u32);
             res = memory s ! unat index
         in Inr (res, s\<lparr>inp := in1\<rparr>))
      else if drop_bit 6 starting_byte AND 3 = 1 then
        (let res = \<lparr>r = word_of_int (uint (r (last_pix s)) + uint (drop_bit 4 starting_byte AND 3) - 2),
                    g = word_of_int (uint (g (last_pix s)) + uint (drop_bit 2 starting_byte AND 3) - 2),
                    b = word_of_int (uint (b (last_pix s)) + uint (drop_bit 0 starting_byte AND 3) - 2),
                    a = a (last_pix s)\<rparr>
         in Inr (res, s\<lparr>memory := (memory s)[nat (qoi_pix_hash res) := res], inp := in1\<rparr>))
      else if drop_bit 6 starting_byte AND 3 = 2 then
        (case read_u8 in1 (indet_second_byte U i j) of (second_byte, in2) \<Rightarrow>
         let dg = (word_of_int (uint (starting_byte AND 63) - 32) :: u8);
             dr_minus_dg = (word_of_int (uint (drop_bit 4 second_byte AND 15) - 8) :: u8);
             db_minus_dg = (word_of_int (uint (drop_bit 0 second_byte AND 15) - 8) :: u8);
             res = \<lparr>r = word_of_int (uint (r (last_pix s)) + uint dr_minus_dg + uint dg),
                    g = word_of_int (uint (g (last_pix s)) + uint dg),
                    b = word_of_int (uint (b (last_pix s)) + uint db_minus_dg + uint dg),
                    a = a (last_pix s)\<rparr>
         in Inr (res, s\<lparr>memory := (memory s)[nat (qoi_pix_hash res) := res], inp := in2\<rparr>))
      else if drop_bit 6 starting_byte AND 3 = 3 then
        (let run_length1 = (word_of_int (uint (starting_byte AND 63) + 1) :: u32);
             res = last_pix s
         in Inr (res, s\<lparr>run_length := run_length1 - 1, inp := in1\<rparr>))
      else Inl (UnknownChunk starting_byte j i))"

text \<open>
  One iteration of the inner loop, at row \<open>i\<close> and column \<open>j\<close>: a pending run writes
  \<^verbatim>\<open>last_pix\<close> and reads nothing (lines 71 to 75); otherwise a chunk is decoded, its
  pixel written and remembered as \<^verbatim>\<open>last_pix\<close> (lines 142, 143).
\<close>

definition loop_body :: "Indet \<Rightarrow> u32 \<Rightarrow> u32 \<Rightarrow> DecState \<Rightarrow> error + DecState" where
  "loop_body U i j s =
     (if run_length s \<noteq> 0 then
        (case Image_set (decoded s) i j (last_pix s) of
           Inl e \<Rightarrow> Inl e
         | Inr d \<Rightarrow> Inr (s\<lparr>decoded := d, run_length := run_length s - 1\<rparr>))
      else
        (case decode_chunk U i j s of
           Inl e \<Rightarrow> Inl e
         | Inr (res, s1) \<Rightarrow>
             (case Image_set (decoded s1) i j res of
                Inl e \<Rightarrow> Inl e
              | Inr d \<Rightarrow> Inr (s1\<lparr>decoded := d, last_pix := res\<rparr>))))"

text \<open>\<^verbatim>\<open>for (uint32_t j = 0; j < h.width; j++)\<close>, from the current \<open>j\<close>.\<close>

function inner_loop :: "Indet \<Rightarrow> QoiHeader \<Rightarrow> u32 \<Rightarrow> u32 \<Rightarrow> DecState \<Rightarrow> error + DecState" where
  "inner_loop U h i j s =
     (if j < width h then
        (case loop_body U i j s of
           Inl e \<Rightarrow> Inl e
         | Inr s' \<Rightarrow> inner_loop U h i (j + 1) s')
      else Inr s)"
  by pat_completeness auto
termination
proof (relation "measure (\<lambda>(U, h, i, j, s). unat (width h) - unat j)")
  fix U :: Indet and h :: QoiHeader and i j :: u32 and s s' :: DecState
  assume "j < width h"
  then have lt: "unat j < unat (width h)" by (simp add: word_less_nat_alt)
  moreover have "unat (width h) < 2 ^ 32" using unsigned_less [of "width h"] by simp
  ultimately have "unat j + unat (1 :: u32) < 2 ^ LENGTH(32)" by simp
  then have "unat (j + 1) = unat j + unat (1 :: u32)" by (simp only: unat_add_lem)
  with lt show "((U, h, i, j + 1, s'), (U, h, i, j, s))
      \<in> measure (\<lambda>(U, h, i, j, s). unat (width h) - unat j)"
    by simp
qed simp

text \<open>\<^verbatim>\<open>for (uint32_t i = 0; i < h.height; i++)\<close>, from the current \<open>i\<close>.\<close>

function outer_loop :: "Indet \<Rightarrow> QoiHeader \<Rightarrow> u32 \<Rightarrow> DecState \<Rightarrow> error + DecState" where
  "outer_loop U h i s =
     (if i < height h then
        (case inner_loop U h i 0 s of
           Inl e \<Rightarrow> Inl e
         | Inr s' \<Rightarrow> outer_loop U h (i + 1) s')
      else Inr s)"
  by pat_completeness auto
termination
proof (relation "measure (\<lambda>(U, h, i, s). unat (height h) - unat i)")
  fix U :: Indet and h :: QoiHeader and i :: u32 and s s' :: DecState
  assume "i < height h"
  then have lt: "unat i < unat (height h)" by (simp add: word_less_nat_alt)
  moreover have "unat (height h) < 2 ^ 32" using unsigned_less [of "height h"] by simp
  ultimately have "unat i + unat (1 :: u32) < 2 ^ LENGTH(32)" by simp
  then have "unat (i + 1) = unat i + unat (1 :: u32)" by (simp only: unat_add_lem)
  with lt show "((U, h, i + 1, s'), (U, h, i, s))
      \<in> measure (\<lambda>(U, h, i, s). unat (height h) - unat i)"
    by simp
qed simp

declare inner_loop.simps [simp del] outer_loop.simps [simp del]

text \<open>The state at line 68: 64 zero pixels, \<open>{0, 0, 0, 255}\<close>, no pending run.\<close>

definition init_state :: "u8 list \<Rightarrow> Image \<Rightarrow> DecState" where
  "init_state in0 img =
     \<lparr>memory = replicate 64 \<lparr>r = 0, g = 0, b = 0, a = 0\<rparr>,
      last_pix = \<lparr>r = 0, g = 0, b = 0, a = 255\<rparr>,
      run_length = 0,
      inp = in0,
      decoded = img\<rparr>"

text \<open>
  \<open>do_decode_image\<close>: what the caller has when it returns, the stream as the decoder left
  it and the image; the locals are gone.
\<close>

definition do_decode_image :: "Indet \<Rightarrow> QoiHeader \<Rightarrow> u8 list \<Rightarrow> Image \<Rightarrow> error + (u8 list \<times> Image)" where
  "do_decode_image U h in0 img =
     (case outer_loop U h 0 (init_state in0 img) of
        Inl e \<Rightarrow> Inl e
      | Inr s \<Rightarrow> Inr (inp s, decoded s))"


section \<open>The scan order and the iterations of the decoder\<close>

text \<open>
  The grid positions (row, column) in the order the two loops visit them: row by row,
  each row from column 0.
\<close>

definition positions :: "QoiHeader \<Rightarrow> (u32 \<times> u32) list" where
  "positions h =
     concat (map (\<lambda>i. map (\<lambda>j. (word_of_nat i, word_of_nat j)) [0..<unat (width h)])
                 [0..<unat (height h)])"

text \<open>
  The loop body run over a list of positions, stopping at the first failure. The two loops
  are this over \<open>positions h\<close> (lemma \<open>outer_loop_steps\<close> below), so a stretch of
  consecutive iterations of a decode is \<open>steps\<close> over the positions they visit.
\<close>

fun steps :: "Indet \<Rightarrow> (u32 \<times> u32) list \<Rightarrow> DecState \<Rightarrow> error + DecState" where
  "steps U [] s = Inr s"
| "steps U ((i, j) # ps) s =
     (case loop_body U i j s of
        Inl e \<Rightarrow> Inl e
      | Inr s' \<Rightarrow> steps U ps s')"

text \<open>The image with the cells at the positions \<open>ps\<close> set to the pixel \<open>p\<close>.\<close>

fun fill :: "Image \<Rightarrow> (u32 \<times> u32) list \<Rightarrow> Pixel \<Rightarrow> Image" where
  "fill img [] p = img"
| "fill img ((i, j) # ps) p =
     fill (img\<lparr>img_a := (img_a img)[unat (i * img_width img + j) := Some p]\<rparr>) ps p"

text \<open>
  Which branch an iteration takes from the state \<open>s\<close>: the pending run of lines 71 to 75,
  or the branch of the dispatch that the starting byte selects (the conditions of lines 83
  to 136, in their order).
\<close>

datatype chunk_op =
  PENDING_RUN | QOI_OP_RGB | QOI_OP_RGBA | QOI_OP_INDEX | QOI_OP_DIFF | QOI_OP_LUMA
  | QOI_OP_RUN | UNKNOWN_CHUNK

definition op_at :: "Indet \<Rightarrow> u32 \<Rightarrow> u32 \<Rightarrow> DecState \<Rightarrow> chunk_op" where
  "op_at U i j s =
     (if run_length s \<noteq> 0 then PENDING_RUN
      else let starting_byte = fst (read_u8 (inp s) (indet_starting_byte U i j)) in
        if starting_byte = 0xFE then QOI_OP_RGB
        else if starting_byte = 0xFF then QOI_OP_RGBA
        else if drop_bit 6 starting_byte AND 3 = 0 then QOI_OP_INDEX
        else if drop_bit 6 starting_byte AND 3 = 1 then QOI_OP_DIFF
        else if drop_bit 6 starting_byte AND 3 = 2 then QOI_OP_LUMA
        else if drop_bit 6 starting_byte AND 3 = 3 then QOI_OP_RUN
        else UNKNOWN_CHUNK)"

text \<open>The operations whose branch ends in \<^verbatim>\<open>memory[qoi_pix_hash(res)] = res\<close>.\<close>

definition recorded :: "chunk_op \<Rightarrow> bool" where
  "recorded c = (c = QOI_OP_RGB \<or> c = QOI_OP_RGBA \<or> c = QOI_OP_DIFF \<or> c = QOI_OP_LUMA)"

text \<open>
  The pixels a run of iterations emits, oldest first, each with the branch that produced
  it; the pixel of an iteration is the value of \<^verbatim>\<open>last_pix\<close> when it ends.
\<close>

fun emitted :: "Indet \<Rightarrow> (u32 \<times> u32) list \<Rightarrow> DecState \<Rightarrow> (chunk_op \<times> Pixel) list" where
  "emitted U [] s = []"
| "emitted U ((i, j) # ps) s =
     (case loop_body U i j s of
        Inl e \<Rightarrow> []
      | Inr s' \<Rightarrow> (op_at U i j s, last_pix s') # emitted U ps s')"

text \<open>
  The most recent pixel of a recorded operation among \<open>evs\<close> that hashes to slot \<open>k\<close>, if
  there is one.
\<close>

definition most_recent :: "nat \<Rightarrow> (chunk_op \<times> Pixel) list \<Rightarrow> Pixel option" where
  "most_recent k evs =
     (case filter (\<lambda>(c, p). recorded c \<and> nat (qoi_pix_hash p) = k) evs of
        [] \<Rightarrow> None
      | x # xs \<Rightarrow> Some (snd (last (x # xs))))"

text \<open>Values for the indeterminate bytes, for the examples.\<close>

definition no_indet :: Indet where
  "no_indet = \<lparr>indet_starting_byte = (\<lambda>i j. 0), indet_second_byte = (\<lambda>i j. 0)\<rparr>"

section \<open>The pixel hash: properties\<close>

lemma qoi_pix_hash_mod:
  "qoi_pix_hash p = (uint (r p) * 3 + uint (g p) * 5 + uint (b p) * 7 + uint (a p) * 11) mod 64"
proof -
  have "0 \<le> uint (r p) * 3 + uint (g p) * 5 + uint (b p) * 7 + uint (a p) * 11"
    by simp
  then show ?thesis
    unfolding qoi_pix_hash_def by (simp only: smod_mod_positive zero_le_numeral)
qed

lemma qoi_pix_hash_range: "0 \<le> qoi_pix_hash p \<and> qoi_pix_hash p < 64"
  by (simp add: qoi_pix_hash_mod)

lemma qoi_pix_hash_slot: "nat (qoi_pix_hash p) < 64"
  using qoi_pix_hash_range [of p] by arith

text \<open>
  C6. The hash of a pixel is \<open>(r*3 + g*5 + b*7 + a*11) mod 64\<close> over the full 8-bit
  channel values, so it is determined by the four channels alone; it lies in \<open>[0, 63]\<close>;
  and the zero pixel hashes to 0.
\<close>

theorem C6_qoi_pix_hash:
  "qoi_pix_hash p = (uint (r p) * 3 + uint (g p) * 5 + uint (b p) * 7 + uint (a p) * 11) mod 64
   \<and> qoi_pix_hash \<lparr>r = x, g = y, b = z, a = w\<rparr>
       = (uint x * 3 + uint y * 5 + uint z * 7 + uint w * 11) mod 64
   \<and> 0 \<le> qoi_pix_hash p \<and> qoi_pix_hash p \<le> 63
   \<and> qoi_pix_hash \<lparr>r = 0, g = 0, b = 0, a = 0\<rparr> = 0"
proof -
  have "qoi_pix_hash p < 64" by (simp add: qoi_pix_hash_mod)
  then have "qoi_pix_hash p \<le> 63" by simp
  moreover have "0 \<le> qoi_pix_hash p" by (simp add: qoi_pix_hash_mod)
  moreover have "qoi_pix_hash \<lparr>r = 0, g = 0, b = 0, a = 0\<rparr> = 0"
    by (simp add: qoi_pix_hash_mod)
  moreover have "qoi_pix_hash \<lparr>r = x, g = y, b = z, a = w\<rparr>
       = (uint x * 3 + uint y * 5 + uint z * 7 + uint w * 11) mod 64"
    by (simp add: qoi_pix_hash_mod)
  ultimately show ?thesis
    using qoi_pix_hash_mod [of p] by simp
qed


section \<open>Bytes as numbers\<close>

lemma and63: "uint ((x::u8) AND 63) = uint x mod 64"
proof -
  have "(63::u8) = mask 6" by (simp add: mask_eq_exp_minus_1)
  then have "x AND 63 = take_bit 6 x" by (simp add: take_bit_eq_mask)
  then show ?thesis by (simp add: take_bit_eq_mod uint_mod_distrib)
qed

lemma and15: "uint ((x::u8) AND 15) = uint x mod 16"
proof -
  have "(15::u8) = mask 4" by (simp add: mask_eq_exp_minus_1)
  then have "x AND 15 = take_bit 4 x" by (simp add: take_bit_eq_mask)
  then show ?thesis by (simp add: take_bit_eq_mod uint_mod_distrib)
qed

lemma and3: "uint ((x::u8) AND 3) = uint x mod 4"
proof -
  have "(3::u8) = mask 2" by (simp add: mask_eq_exp_minus_1)
  then have "x AND 3 = take_bit 2 x" by (simp add: take_bit_eq_mask)
  then show ?thesis by (simp add: take_bit_eq_mod uint_mod_distrib)
qed

lemma uint_drop:
  "uint (drop_bit 6 (x::u8)) = uint x div 64"
  "uint (drop_bit 4 (x::u8)) = uint x div 16"
  "uint (drop_bit 2 (x::u8)) = uint x div 4"
  by (simp_all add: drop_bit_eq_div uint_div_distrib)

lemma uint_u8_bound: "uint (x::u8) < 256"
  using uint_bounded [of x] by simp

lemma top2: "drop_bit 6 (x::u8) AND 3 = drop_bit 6 x"
proof -
  have "uint x div 64 < 4" using uint_u8_bound [of x] by simp
  moreover have "0 \<le> uint x div 64" by (simp add: pos_imp_zdiv_nonneg_iff)
  ultimately have "(uint x div 64) mod 4 = uint x div 64" by simp
  then have "uint (drop_bit 6 x AND 3) = uint (drop_bit 6 x)"
    by (simp add: and3 uint_drop)
  then show ?thesis by (simp add: word_uint_eq_iff)
qed

section \<open>One chunk\<close>

lemma loop_body_chunk:
  assumes "run_length s = 0" and "decode_chunk U i j s = Inr (res, s1)" and "decoded s1 = decoded s"
      and "unat (i * img_width (decoded s) + j) < length (img_a (decoded s))"
  shows "loop_body U i j s =
           Inr (s1\<lparr>decoded := (decoded s)\<lparr>img_a := (img_a (decoded s))[unat (i * img_width (decoded s) + j) := Some res]\<rparr>,
                    last_pix := res\<rparr>)"
  using assms by (simp add: loop_body_def Image_set_def Let_def)

lemma decode_chunk_rgb:
  assumes "inp s = 0xFE # x # y # z # rest"
  shows "decode_chunk U i j s =
           Inr (\<lparr>r = x, g = y, b = z, a = a (last_pix s)\<rparr>,
                s\<lparr>memory := (memory s)[nat (qoi_pix_hash \<lparr>r = x, g = y, b = z, a = a (last_pix s)\<rparr>) :=
                                         \<lparr>r = x, g = y, b = z, a = a (last_pix s)\<rparr>],
                  inp := rest\<rparr>)"
  using assms by (simp add: decode_chunk_def Let_def)


lemma unat_ucast_u8_u32: "unat (ucast (x::u8) :: u32) = unat x"
proof -
  have "unat x < 2 ^ 32" using unsigned_less [of x, where 'a = nat] by simp
  then show ?thesis by (simp add: unsigned_ucast_eq take_bit_nat_eq_self)
qed

lemma top2_not_rgb: "drop_bit 6 (tag::u8) \<noteq> 3 \<Longrightarrow> tag \<noteq> 0xFE \<and> tag \<noteq> 0xFF"
  by auto

lemma decode_chunk_index:
  assumes "inp s = tag # rest" and "drop_bit 6 tag = 0"
  shows "decode_chunk U i j s = Inr (memory s ! unat (tag AND 63), s\<lparr>inp := rest\<rparr>)"
proof -
  have "tag \<noteq> 0xFE \<and> tag \<noteq> 0xFF" using assms(2) by (intro top2_not_rgb) simp
  then show ?thesis
    using assms by (simp add: decode_chunk_def Let_def top2 unat_ucast_u8_u32)
qed

lemma decode_chunk_diff:
  assumes "inp s = tag # rest" and "drop_bit 6 tag = 1"
      and "P = \<lparr>r = word_of_int (uint (r (last_pix s)) + uint (drop_bit 4 tag AND 3) - 2),
                 g = word_of_int (uint (g (last_pix s)) + uint (drop_bit 2 tag AND 3) - 2),
                 b = word_of_int (uint (b (last_pix s)) + uint (tag AND 3) - 2),
                 a = a (last_pix s)\<rparr>"
  shows "decode_chunk U i j s = Inr (P, s\<lparr>memory := (memory s)[nat (qoi_pix_hash P) := P], inp := rest\<rparr>)"
proof -
  have "tag \<noteq> 0xFE \<and> tag \<noteq> 0xFF" using assms(2) by (intro top2_not_rgb) simp
  then show ?thesis
    using assms by (simp add: decode_chunk_def Let_def top2)
qed

lemma decode_chunk_luma:
  assumes "inp s = tag # second # rest" and "drop_bit 6 tag = 2"
      and "dg = (word_of_int (uint (tag AND 63) - 32) :: u8)"
      and "dr_minus_dg = (word_of_int (uint (drop_bit 4 second AND 15) - 8) :: u8)"
      and "db_minus_dg = (word_of_int (uint (second AND 15) - 8) :: u8)"
      and "P = \<lparr>r = word_of_int (uint (r (last_pix s)) + uint dr_minus_dg + uint dg),
                 g = word_of_int (uint (g (last_pix s)) + uint dg),
                 b = word_of_int (uint (b (last_pix s)) + uint db_minus_dg + uint dg),
                 a = a (last_pix s)\<rparr>"
  shows "decode_chunk U i j s = Inr (P, s\<lparr>memory := (memory s)[nat (qoi_pix_hash P) := P], inp := rest\<rparr>)"
proof -
  have "tag \<noteq> 0xFE \<and> tag \<noteq> 0xFF" using assms(2) by (intro top2_not_rgb) simp
  then show ?thesis
    using assms by (simp add: decode_chunk_def Let_def top2)
qed

lemma decode_chunk_run:
  assumes "inp s = tag # rest" and "drop_bit 6 tag = 3" and "tag \<noteq> 0xFE" and "tag \<noteq> 0xFF"
  shows "decode_chunk U i j s =
           Inr (last_pix s, s\<lparr>run_length := word_of_int (uint (tag AND 63) + 1) - 1, inp := rest\<rparr>)"
  using assms by (simp add: decode_chunk_def Let_def top2)

lemma loop_body_recorded:
  assumes "run_length s = 0"
      and "decode_chunk U i j s = Inr (P, s\<lparr>memory := (memory s)[nat (qoi_pix_hash P) := P], inp := rest\<rparr>)"
      and "length (memory s) = 64"
      and "unat (i * img_width (decoded s) + j) < length (img_a (decoded s))"
  shows "\<exists>s'. loop_body U i j s = Inr s' \<and> last_pix s' = P
           \<and> Image_get (decoded s') i j = Inr (Some P)
           \<and> memory s' = (memory s)[nat (qoi_pix_hash P) := P]
           \<and> memory s' ! nat (qoi_pix_hash P) = P
           \<and> inp s' = rest \<and> run_length s' = 0"
proof -
  have slot: "nat (qoi_pix_hash P) < length (memory s)"
    using assms(3) qoi_pix_hash_slot [of P] by simp
  show ?thesis
    using loop_body_chunk [OF assms(1,2) _ assms(4)] assms(1,4) slot
    by (simp add: Image_get_def Let_def)
qed

lemma mod256_add3: "(x + y mod 256 + z mod 256) mod 256 = (x + y + z) mod (256::int)"
  by (metis mod_add_eq mod_add_right_eq add.assoc)

lemma mod256_add2: "(x + z mod 256) mod 256 = (x + z) mod (256::int)"
  by (simp add: mod_simps)

lemma uint_u8_of_int: "uint (word_of_int k :: u8) = k mod 256"
  by (simp add: uint_word_of_int)


text \<open>
  C5. A QOI_OP_RGB chunk (tag \<open>0xFE\<close> and three more bytes), decoded in any state with no
  pending run: the pixel has the three bytes as r, g, b and the alpha of \<open>last_pix\<close>,
  whatever that alpha is; it is written to the grid, becomes \<open>last_pix\<close>, and is stored in
  the table at its hash.
\<close>

theorem C5_rgb:
  assumes "run_length s = 0" and "inp s = 0xFE # x # y # z # rest" and "length (memory s) = 64"
      and "unat (i * img_width (decoded s) + j) < length (img_a (decoded s))"
  shows "\<exists>s'. loop_body U i j s = Inr s'
           \<and> last_pix s' = \<lparr>r = x, g = y, b = z, a = a (last_pix s)\<rparr>
           \<and> Image_get (decoded s') i j = Inr (Some (last_pix s'))
           \<and> memory s' = (memory s)[nat (qoi_pix_hash (last_pix s')) := last_pix s']
           \<and> memory s' ! nat (qoi_pix_hash (last_pix s')) = last_pix s'
           \<and> inp s' = rest \<and> run_length s' = 0"
proof -
  let ?P = "\<lparr>r = x, g = y, b = z, a = a (last_pix s)\<rparr>"
  have slot: "nat (qoi_pix_hash ?P) < length (memory s)"
    using assms(3) qoi_pix_hash_slot [of ?P] by simp
  show ?thesis
    using loop_body_chunk [OF assms(1) decode_chunk_rgb [OF assms(2)] _ assms(4)] assms(1,4) slot
    by (simp add: Image_get_def Let_def)
qed

text \<open>
  An instance: from a state whose \<open>last_pix\<close> has alpha 7, the chunk \<open>FE 01 02 03\<close> gives
  \<open>{1, 2, 3, 7}\<close>, stored in slot 47.
\<close>

theorem C5_rgb_witness:
  "\<exists>s'. loop_body no_indet 0 0
          ((init_state [0xFE, 1, 2, 3] (Image_new 1 1))\<lparr>last_pix := \<lparr>r = 10, g = 20, b = 30, a = 7\<rparr>\<rparr>) = Inr s'
        \<and> last_pix s' = \<lparr>r = 1, g = 2, b = 3, a = 7\<rparr>
        \<and> Image_get (decoded s') 0 0 = Inr (Some \<lparr>r = 1, g = 2, b = 3, a = 7\<rparr>)
        \<and> memory s' ! 47 = \<lparr>r = 1, g = 2, b = 3, a = 7\<rparr>
        \<and> inp s' = []"
  using C5_rgb [of "(init_state [0xFE, 1, 2, 3] (Image_new 1 1))\<lparr>last_pix := \<lparr>r = 10, g = 20, b = 30, a = 7\<rparr>\<rparr>"
                   1 2 3 "[]" 0 0 no_indet]
  by (auto simp: init_state_def Image_new_def qoi_pix_hash_mod)


text \<open>
  C3. A QOI_OP_DIFF chunk (top two bits 01): each channel is the channel of \<open>last_pix\<close>
  plus its 2-bit field minus 2, modulo 256; a field of 0 on \<open>r = 1\<close> gives 255; alpha is
  that of \<open>last_pix\<close>; the pixel is stored in the table at its hash.
\<close>

theorem C3_diff:
  assumes "run_length s = 0" and "inp s = tag # rest" and "drop_bit 6 tag = 1"
      and "length (memory s) = 64"
      and "unat (i * img_width (decoded s) + j) < length (img_a (decoded s))"
  shows "\<exists>s'. loop_body U i j s = Inr s'
           \<and> uint (r (last_pix s')) = (uint (r (last_pix s)) + (uint tag div 16 mod 4 - 2)) mod 256
           \<and> uint (g (last_pix s')) = (uint (g (last_pix s)) + (uint tag div 4 mod 4 - 2)) mod 256
           \<and> uint (b (last_pix s')) = (uint (b (last_pix s)) + (uint tag mod 4 - 2)) mod 256
           \<and> a (last_pix s') = a (last_pix s)
           \<and> (uint tag div 16 mod 4 = 0 \<and> r (last_pix s) = 1 \<longrightarrow> r (last_pix s') = 255)
           \<and> Image_get (decoded s') i j = Inr (Some (last_pix s'))
           \<and> memory s' = (memory s)[nat (qoi_pix_hash (last_pix s')) := last_pix s']
           \<and> memory s' ! nat (qoi_pix_hash (last_pix s')) = last_pix s'
           \<and> inp s' = rest \<and> run_length s' = 0"
proof -
  define P where "P = \<lparr>r = word_of_int (uint (r (last_pix s)) + uint (drop_bit 4 tag AND 3) - 2),
                 g = word_of_int (uint (g (last_pix s)) + uint (drop_bit 2 tag AND 3) - 2),
                 b = word_of_int (uint (b (last_pix s)) + uint (tag AND 3) - 2),
                 a = a (last_pix s)\<rparr>"
  have chunk: "decode_chunk U i j s = Inr (P, s\<lparr>memory := (memory s)[nat (qoi_pix_hash P) := P], inp := rest\<rparr>)"
    by (rule decode_chunk_diff [OF assms(2,3) P_def])
  have "uint (r P) = (uint (r (last_pix s)) + uint (drop_bit 4 tag AND 3) - 2) mod 256"
    unfolding P_def by (simp only: Pixel.select_convs uint_u8_of_int)
  then have pr: "uint (r P) = (uint (r (last_pix s)) + (uint tag div 16 mod 4 - 2)) mod 256"
    by (simp add: and3 uint_drop algebra_simps)
  have "uint (g P) = (uint (g (last_pix s)) + uint (drop_bit 2 tag AND 3) - 2) mod 256"
    unfolding P_def by (simp only: Pixel.select_convs uint_u8_of_int)
  then have pg: "uint (g P) = (uint (g (last_pix s)) + (uint tag div 4 mod 4 - 2)) mod 256"
    by (simp add: and3 uint_drop algebra_simps)
  have "uint (b P) = (uint (b (last_pix s)) + uint (tag AND 3) - 2) mod 256"
    unfolding P_def by (simp only: Pixel.select_convs uint_u8_of_int)
  then have pb: "uint (b P) = (uint (b (last_pix s)) + (uint tag mod 4 - 2)) mod 256"
    by (simp add: and3 algebra_simps)
  have pa: "a P = a (last_pix s)" by (simp add: P_def)
  have wrap: "uint tag div 16 mod 4 = 0 \<and> r (last_pix s) = 1 \<longrightarrow> r P = 255"
  proof
    assume h: "uint tag div 16 mod 4 = 0 \<and> r (last_pix s) = 1"
    then have "uint (r P) = 255" using pr by simp
    then show "r P = 255" by (simp add: word_uint_eq_iff)
  qed
  from loop_body_recorded [OF assms(1) chunk assms(4,5)]
  obtain s' where s': "loop_body U i j s = Inr s'" "last_pix s' = P"
      "Image_get (decoded s') i j = Inr (Some P)"
      "memory s' = (memory s)[nat (qoi_pix_hash P) := P]"
      "memory s' ! nat (qoi_pix_hash P) = P" "inp s' = rest" "run_length s' = 0"
    by blast
  show ?thesis
  proof (intro exI [of _ s'] conjI)
    show "memory s' ! nat (qoi_pix_hash (last_pix s')) = last_pix s'"
      by (simp only: s'(2,5))
    show "uint tag div 16 mod 4 = 0 \<and> r (last_pix s) = 1 \<longrightarrow> r (last_pix s') = 255"
      using wrap by (simp only: s'(2))
  qed (simp_all only: s'(1-4,6,7) pr pg pb pa)
qed


text \<open>
  An instance: the tag \<open>0x40\<close> (all three fields 0) on \<open>{1, 2, 0, 7}\<close> gives
  \<open>{255, 0, 254, 7}\<close>.
\<close>

theorem C3_diff_witness:
  "\<exists>s'. loop_body no_indet 0 0
          ((init_state [0x40] (Image_new 1 1))\<lparr>last_pix := \<lparr>r = 1, g = 2, b = 0, a = 7\<rparr>\<rparr>) = Inr s'
        \<and> last_pix s' = \<lparr>r = 255, g = 0, b = 254, a = 7\<rparr>
        \<and> Image_get (decoded s') 0 0 = Inr (Some \<lparr>r = 255, g = 0, b = 254, a = 7\<rparr>)
        \<and> inp s' = []"
  using C3_diff [of "(init_state [0x40] (Image_new 1 1))\<lparr>last_pix := \<lparr>r = 1, g = 2, b = 0, a = 7\<rparr>\<rparr>"
                   "0x40" "[]" 0 0 no_indet]
  by (auto simp: init_state_def Image_new_def qoi_pix_hash_mod word_uint_eq_iff)

text \<open>
  C2. A QOI_OP_LUMA chunk (top two bits 10, and a second byte): with \<open>dg\<close> the low 6 bits
  of the tag minus 32 and \<open>dr - dg\<close>, \<open>db - dg\<close> the high and low nibble of the second
  byte minus 8, the pixel is \<open>g + dg\<close>, \<open>r + (dr - dg) + dg\<close>, \<open>b + (db - dg) + dg\<close>
  modulo 256 on the channels of \<open>last_pix\<close>, with its alpha; it is stored in the table at
  its hash.
\<close>

theorem C2_luma:
  assumes "run_length s = 0" and "inp s = tag # second # rest" and "drop_bit 6 tag = 2"
      and "length (memory s) = 64"
      and "unat (i * img_width (decoded s) + j) < length (img_a (decoded s))"
      and "dg = uint tag mod 64 - 32"
      and "dr_dg = uint second div 16 - 8"
      and "db_dg = uint second mod 16 - 8"
  shows "\<exists>s'. loop_body U i j s = Inr s'
           \<and> uint (g (last_pix s')) = (uint (g (last_pix s)) + dg) mod 256
           \<and> uint (r (last_pix s')) = (uint (r (last_pix s)) + dr_dg + dg) mod 256
           \<and> uint (b (last_pix s')) = (uint (b (last_pix s)) + db_dg + dg) mod 256
           \<and> a (last_pix s') = a (last_pix s)
           \<and> Image_get (decoded s') i j = Inr (Some (last_pix s'))
           \<and> memory s' = (memory s)[nat (qoi_pix_hash (last_pix s')) := last_pix s']
           \<and> memory s' ! nat (qoi_pix_hash (last_pix s')) = last_pix s'
           \<and> inp s' = rest \<and> run_length s' = 0"
proof -
  define wg :: u8 where "wg = word_of_int (uint (tag AND 63) - 32)"
  define wr :: u8 where "wr = word_of_int (uint (drop_bit 4 second AND 15) - 8)"
  define wb :: u8 where "wb = word_of_int (uint (second AND 15) - 8)"
  define P where "P = \<lparr>r = word_of_int (uint (r (last_pix s)) + uint wr + uint wg),
                 g = word_of_int (uint (g (last_pix s)) + uint wg),
                 b = word_of_int (uint (b (last_pix s)) + uint wb + uint wg),
                 a = a (last_pix s)\<rparr>"
  have chunk: "decode_chunk U i j s = Inr (P, s\<lparr>memory := (memory s)[nat (qoi_pix_hash P) := P], inp := rest\<rparr>)"
    by (rule decode_chunk_luma [OF assms(2,3) wg_def wr_def wb_def P_def])
  have hi: "uint second div 16 mod 16 = uint second div 16"
    using uint_u8_bound [of second] by (simp add: pos_imp_zdiv_nonneg_iff)
  have "uint wg = (uint (tag AND 63) - 32) mod 256"
    unfolding wg_def by (rule uint_u8_of_int)
  then have ug: "uint wg = dg mod 256" by (simp add: and63 assms(6))
  have "uint wr = (uint (drop_bit 4 second AND 15) - 8) mod 256"
    unfolding wr_def by (rule uint_u8_of_int)
  then have ur: "uint wr = dr_dg mod 256" by (simp add: and15 uint_drop hi assms(7))
  have "uint wb = (uint (second AND 15) - 8) mod 256"
    unfolding wb_def by (rule uint_u8_of_int)
  then have ub: "uint wb = db_dg mod 256" by (simp add: and15 assms(8))
  have "uint (g P) = (uint (g (last_pix s)) + uint wg) mod 256"
    unfolding P_def by (simp only: Pixel.select_convs uint_u8_of_int)
  then have pg: "uint (g P) = (uint (g (last_pix s)) + dg) mod 256"
    by (simp only: ug mod256_add2)
  have "uint (r P) = (uint (r (last_pix s)) + uint wr + uint wg) mod 256"
    unfolding P_def by (simp only: Pixel.select_convs uint_u8_of_int)
  then have pr: "uint (r P) = (uint (r (last_pix s)) + dr_dg + dg) mod 256"
    by (simp only: ug ur mod256_add3)
  have "uint (b P) = (uint (b (last_pix s)) + uint wb + uint wg) mod 256"
    unfolding P_def by (simp only: Pixel.select_convs uint_u8_of_int)
  then have pb: "uint (b P) = (uint (b (last_pix s)) + db_dg + dg) mod 256"
    by (simp only: ug ub mod256_add3)
  have pa: "a P = a (last_pix s)" by (simp add: P_def)
  from loop_body_recorded [OF assms(1) chunk assms(4,5)]
  obtain s' where s': "loop_body U i j s = Inr s'" "last_pix s' = P"
      "Image_get (decoded s') i j = Inr (Some P)"
      "memory s' = (memory s)[nat (qoi_pix_hash P) := P]"
      "memory s' ! nat (qoi_pix_hash P) = P" "inp s' = rest" "run_length s' = 0"
    by blast
  show ?thesis
  proof (intro exI [of _ s'] conjI)
    show "memory s' ! nat (qoi_pix_hash (last_pix s')) = last_pix s'"
      by (simp only: s'(2,5))
  qed (simp_all only: s'(1-4,6,7) pr pg pb pa)
qed


text \<open>
  An instance: the chunk \<open>BF F0\<close> (\<open>dg = 31\<close>, \<open>dr - dg = 7\<close>, \<open>db - dg = -8\<close>) on
  \<open>{250, 100, 5, 9}\<close> gives \<open>{32, 131, 28, 9}\<close>.
\<close>

theorem C2_luma_witness:
  "\<exists>s'. loop_body no_indet 0 0
          ((init_state [0xBF, 0xF0] (Image_new 1 1))\<lparr>last_pix := \<lparr>r = 250, g = 100, b = 5, a = 9\<rparr>\<rparr>) = Inr s'
        \<and> last_pix s' = \<lparr>r = 32, g = 131, b = 28, a = 9\<rparr>
        \<and> Image_get (decoded s') 0 0 = Inr (Some \<lparr>r = 32, g = 131, b = 28, a = 9\<rparr>)
        \<and> inp s' = []"
proof -
  let ?S = "(init_state [0xBF, 0xF0] (Image_new 1 1))\<lparr>last_pix := \<lparr>r = 250, g = 100, b = 5, a = 9\<rparr>\<rparr>"
  have h1: "run_length ?S = 0" by (simp add: init_state_def)
  have h2: "inp ?S = [0xBF, 0xF0]" by (simp add: init_state_def)
  have h3: "drop_bit 6 (0xBF :: u8) = 2" by simp
  have h4: "length (memory ?S) = 64" by (simp add: init_state_def)
  have h5: "unat (0 * img_width (decoded ?S) + 0) < length (img_a (decoded ?S))"
    by (simp add: init_state_def Image_new_def)
  have h6: "(31 :: int) = uint (0xBF :: u8) mod 64 - 32" by simp
  have h7: "(7 :: int) = uint (0xF0 :: u8) div 16 - 8" by simp
  have h8: "(- 8 :: int) = uint (0xF0 :: u8) mod 16 - 8" by simp
  from C2_luma [OF h1 h2 h3 h4 h5 h6 h7 h8, of no_indet]
  obtain s' where s': "loop_body no_indet 0 0 ?S = Inr s'"
      "uint (g (last_pix s')) = (uint (g (last_pix ?S)) + 31) mod 256"
      "uint (r (last_pix s')) = (uint (r (last_pix ?S)) + 7 + 31) mod 256"
      "uint (b (last_pix s')) = (uint (b (last_pix ?S)) + - 8 + 31) mod 256"
      "a (last_pix s') = a (last_pix ?S)"
      "Image_get (decoded s') 0 0 = Inr (Some (last_pix s'))"
      "inp s' = []"
    by blast
  have "r (last_pix s') = 32" using s'(3) by (simp add: word_uint_eq_iff)
  moreover have "g (last_pix s') = 131" using s'(2) by (simp add: word_uint_eq_iff)
  moreover have "b (last_pix s') = 28" using s'(4) by (simp add: word_uint_eq_iff)
  moreover have "a (last_pix s') = 9" using s'(5) by simp
  ultimately have "last_pix s' = \<lparr>r = 32, g = 131, b = 28, a = 9\<rparr>" by simp
  with s'(1,6,7) show ?thesis by simp
qed


text \<open>
  C7. A QOI_OP_INDEX chunk (top two bits 00) with index \<open>k\<close>: the pixel is slot \<open>k\<close> of the
  table as it is, and the whole table is left as it was.
\<close>

theorem C7_index:
  assumes "run_length s = 0" and "inp s = tag # rest" and "drop_bit 6 tag = 0"
      and "unat (i * img_width (decoded s) + j) < length (img_a (decoded s))"
      and "k = unat tag mod 64"
  shows "\<exists>s'. loop_body U i j s = Inr s'
           \<and> last_pix s' = memory s ! k
           \<and> Image_get (decoded s') i j = Inr (Some (memory s ! k))
           \<and> memory s' = memory s
           \<and> inp s' = rest \<and> run_length s' = 0"
proof -
  have "uint (tag AND 63) = uint tag mod 64" by (rule and63)
  then have k: "unat (tag AND 63) = k"
    using assms(5) by (simp add: unat_eq_nat_uint nat_mod_distrib del: unat_eq_nat_uint [symmetric])
  show ?thesis
    using loop_body_chunk [OF assms(1) decode_chunk_index [OF assms(2,3)] _ assms(4)] assms(1,4) k
    by (simp add: Image_get_def Let_def)
qed

text \<open>
  An instance: with \<open>{1, 2, 3, 4}\<close> in slot 5, the tag \<open>0x05\<close> gives that pixel and leaves
  the table as it was.
\<close>

theorem C7_index_witness:
  "\<exists>s'. loop_body no_indet 0 0
          ((init_state [0x05] (Image_new 1 1))
             \<lparr>memory := (replicate 64 \<lparr>r = 0, g = 0, b = 0, a = 0\<rparr>)[5 := \<lparr>r = 1, g = 2, b = 3, a = 4\<rparr>]\<rparr>) = Inr s'
        \<and> last_pix s' = \<lparr>r = 1, g = 2, b = 3, a = 4\<rparr>
        \<and> Image_get (decoded s') 0 0 = Inr (Some \<lparr>r = 1, g = 2, b = 3, a = 4\<rparr>)
        \<and> memory s' = (replicate 64 \<lparr>r = 0, g = 0, b = 0, a = 0\<rparr>)[5 := \<lparr>r = 1, g = 2, b = 3, a = 4\<rparr>]
        \<and> inp s' = []"
proof -
  let ?M = "(replicate 64 \<lparr>r = 0, g = 0, b = 0, a = 0\<rparr>)[5 := \<lparr>r = 1, g = 2, b = 3, a = 4\<rparr>]"
  let ?S = "(init_state [0x05] (Image_new 1 1))\<lparr>memory := ?M\<rparr>"
  have h1: "run_length ?S = 0" by (simp add: init_state_def)
  have h2: "inp ?S = [0x05]" by (simp add: init_state_def)
  have h3: "drop_bit 6 (0x05 :: u8) = 0" by simp
  have h4: "unat (0 * img_width (decoded ?S) + 0) < length (img_a (decoded ?S))"
    by (simp add: init_state_def Image_new_def)
  have h5: "(5 :: nat) = unat (0x05 :: u8) mod 64" by simp
  have m: "memory ?S = ?M" by simp
  have m5: "?M ! 5 = \<lparr>r = 1, g = 2, b = 3, a = 4\<rparr>" by simp
  from C7_index [OF h1 h2 h3 h4 h5, of no_indet]
  show ?thesis unfolding m m5 by blast
qed

section \<open>The two loops as a run of iterations\<close>

lemma u32_succ: "(j :: u32) < w \<Longrightarrow> unat (j + 1) = Suc (unat j)"
proof -
  assume "j < w"
  then have "unat j < unat w" by (simp add: word_less_nat_alt)
  moreover have "unat w < 2 ^ 32" using unsigned_less [of w] by simp
  ultimately have "unat j + unat (1 :: u32) < 2 ^ LENGTH(32)" by simp
  then have "unat (j + 1) = unat j + unat (1 :: u32)" by (simp only: unat_add_lem)
  then show ?thesis by simp
qed

lemma steps_append:
  "steps U (ps @ qs) s = (case steps U ps s of Inl e \<Rightarrow> Inl e | Inr s' \<Rightarrow> steps U qs s')"
  by (induction ps arbitrary: s) (auto split: sum.splits)

lemma inner_loop_steps:
  "inner_loop U h i j s = steps U (map (\<lambda>k. (i, word_of_nat k)) [unat j..<unat (width h)]) s"
proof (induction U h i j s rule: inner_loop.induct)
  case (1 U h i j s)
  show ?case
  proof (cases "j < width h")
    case True
    then have lt: "unat j < unat (width h)" by (simp add: word_less_nat_alt)
    have up: "[unat j..<unat (width h)] = unat j # [unat (j + 1)..<unat (width h)]"
      using lt u32_succ [OF True] by (simp add: upt_conv_Cons)
    have unf: "inner_loop U h i j s =
        (case loop_body U i j s of Inl e \<Rightarrow> Inl e | Inr s' \<Rightarrow> inner_loop U h i (j + 1) s')"
      using True by (subst inner_loop.simps) simp
    show ?thesis
    proof (cases "loop_body U i j s")
      case (Inl e)
      then show ?thesis unfolding unf up by simp
    next
      case (Inr s')
      then show ?thesis unfolding unf up using "1.IH" [OF True Inr] by simp
    qed
  next
    case False
    then have "unat (width h) \<le> unat j" by (simp add: word_less_nat_alt)
    then show ?thesis using False by (subst inner_loop.simps) simp
  qed
qed

lemma outer_loop_steps_from:
  "outer_loop U h i s =
     steps U (concat (map (\<lambda>k. map (\<lambda>j. (word_of_nat k, word_of_nat j)) [0..<unat (width h)])
                          [unat i..<unat (height h)])) s"
proof (induction U h i s rule: outer_loop.induct)
  case (1 U h i s)
  show ?case
  proof (cases "i < height h")
    case True
    then have lt: "unat i < unat (height h)" by (simp add: word_less_nat_alt)
    have up: "[unat i..<unat (height h)] = unat i # [unat (i + 1)..<unat (height h)]"
      using lt u32_succ [OF True] by (simp add: upt_conv_Cons)
    have row: "inner_loop U h i 0 s = steps U (map (\<lambda>j. (i, word_of_nat j)) [0..<unat (width h)]) s"
      using inner_loop_steps [of U h i 0 s] by simp
    have unf: "outer_loop U h i s =
        (case inner_loop U h i 0 s of Inl e \<Rightarrow> Inl e | Inr s' \<Rightarrow> outer_loop U h (i + 1) s')"
      using True by (subst outer_loop.simps) simp
    show ?thesis
    proof (cases "inner_loop U h i 0 s")
      case (Inl e)
      then have "steps U (map (\<lambda>j. (i, word_of_nat j)) [0..<unat (width h)]) s = Inl e"
        using row by simp
      then show ?thesis unfolding unf up using Inl by (simp add: steps_append)
    next
      case (Inr s')
      then have "steps U (map (\<lambda>j. (i, word_of_nat j)) [0..<unat (width h)]) s = Inr s'"
        using row by simp
      then show ?thesis unfolding unf up using Inr "1.IH" [OF True Inr]
        by (simp add: steps_append)
    qed
  next
    case False
    then have "unat (height h) \<le> unat i" by (simp add: word_less_nat_alt)
    then show ?thesis using False by (subst outer_loop.simps) simp
  qed
qed

lemma outer_loop_steps: "outer_loop U h 0 s = steps U (positions h) s"
  using outer_loop_steps_from [of U h 0 s] by (simp add: positions_def)

section \<open>The dispatch is exhaustive\<close>

lemma and3_cases: "(x :: u8) AND 3 = 0 \<or> x AND 3 = 1 \<or> x AND 3 = 2 \<or> x AND 3 = 3"
proof -
  have "unat (x AND 3) \<le> unat (3 :: u8)"
    by (rule word_and_le1 [THEN word_le_nat_alt [THEN iffD1]])
  then have "unat (x AND 3) \<le> 3" by simp
  then have "unat (x AND 3) = 0 \<or> unat (x AND 3) = 1 \<or> unat (x AND 3) = 2 \<or> unat (x AND 3) = 3"
    by arith
  then show ?thesis
    by (simp add: word_unat_eq_iff)
qed

lemma op_at_known: "op_at U i j s \<noteq> UNKNOWN_CHUNK"
  using and3_cases [of "drop_bit 6 (fst (read_u8 (inp s) (indet_starting_byte U i j)))"]
  by (auto simp: op_at_def Let_def)

lemma decode_chunk_no_error: "decode_chunk U i j s \<noteq> Inl e"
  using and3_cases [of "drop_bit 6 (fst (read_u8 (inp s) (indet_starting_byte U i j)))"]
  by (auto simp: decode_chunk_def Let_def split: prod.splits)

lemma decode_chunk_effect:
  assumes "decode_chunk U i j s = Inr (res, s1)" and "run_length s = 0"
  shows "decoded s1 = decoded s \<and> last_pix s1 = last_pix s
         \<and> memory s1 = (if recorded (op_at U i j s)
                          then (memory s)[nat (qoi_pix_hash res) := res] else memory s)"
  using assms
  by (auto simp: decode_chunk_def op_at_def recorded_def Let_def split: prod.splits if_splits)

lemma loop_body_effect:
  assumes "loop_body U i j s = Inr s'"
  shows "unat (i * img_width (decoded s) + j) < length (img_a (decoded s))
         \<and> decoded s' = (decoded s)\<lparr>img_a := (img_a (decoded s))
                [unat (i * img_width (decoded s) + j) := Some (last_pix s')]\<rparr>
         \<and> memory s' = (if recorded (op_at U i j s)
                then (memory s)[nat (qoi_pix_hash (last_pix s')) := last_pix s'] else memory s)"
proof (cases "run_length s = 0")
  case True
  with assms obtain res s1 where c: "decode_chunk U i j s = Inr (res, s1)"
    by (auto simp: loop_body_def split: sum.splits)
  note e = decode_chunk_effect [OF c True]
  from assms c True e show ?thesis
    by (auto simp: loop_body_def Image_set_def Let_def split: if_splits)
next
  case False
  with assms show ?thesis
    by (auto simp: loop_body_def Image_set_def Let_def op_at_def recorded_def split: if_splits)
qed

lemma loop_body_total:
  assumes "unat (i * img_width (decoded s) + j) < length (img_a (decoded s))"
  shows "\<exists>s'. loop_body U i j s = Inr s'"
proof (cases "run_length s = 0")
  case True
  obtain res s1 where c: "decode_chunk U i j s = Inr (res, s1)"
    using decode_chunk_no_error [of U i j s] by (cases "decode_chunk U i j s") auto
  from decode_chunk_effect [OF c True] have "decoded s1 = decoded s" by simp
  with assms c True show ?thesis
    by (simp add: loop_body_def Image_set_def Let_def)
next
  case False
  with assms show ?thesis by (simp add: loop_body_def Image_set_def Let_def)
qed

lemma loop_body_error: "loop_body U i j s = Inl e \<Longrightarrow> e = OutOfBounds"
  using decode_chunk_no_error [of U i j s]
  by (auto simp: loop_body_def Image_set_def Let_def split: sum.splits if_splits)

lemma steps_error: "steps U ps s = Inl e \<Longrightarrow> e = OutOfBounds"
proof (induction ps arbitrary: s)
  case Nil
  then show ?case by simp
next
  case (Cons p ps)
  obtain i j where p: "p = (i, j)" by (cases p)
  show ?case
  proof (cases "loop_body U i j s")
    case (Inl e')
    with Cons.prems p show ?thesis by (simp add: loop_body_error)
  next
    case (Inr s')
    with Cons.prems p Cons.IH [of s'] show ?thesis by simp
  qed
qed

lemma do_decode_image_error: "do_decode_image U h in0 img = Inl e \<Longrightarrow> e = OutOfBounds"
  using steps_error [of U "positions h" "init_state in0 img" e]
  by (auto simp: do_decode_image_def outer_loop_steps split: sum.splits)

text \<open>
  C9 (as amended). No byte lies outside the six operations: a starting byte is \<open>0xFE\<close>,
  \<open>0xFF\<close>, or has one of the four values of its top two bits, so the dispatch always takes
  one of its six branches; the final \<^verbatim>\<open>else\<close> with its message (the byte, the column and
  the row) is never reached, and no decode ends in \<open>UnknownChunk\<close>.
\<close>

theorem C9_no_unknown_chunk:
  "(tag = 0xFE \<or> tag = 0xFF \<or> drop_bit 6 tag AND 3 = 0 \<or> drop_bit 6 tag AND 3 = 1
      \<or> drop_bit 6 tag AND 3 = 2 \<or> drop_bit 6 tag AND 3 = (3 :: u8))
   \<and> op_at U i j s \<noteq> UNKNOWN_CHUNK
   \<and> decode_chunk U i j s \<noteq> Inl e
   \<and> do_decode_image U h in0 img \<noteq> Inl (UnknownChunk byte x y)"
proof -
  have "do_decode_image U h in0 img \<noteq> Inl (UnknownChunk byte x y)"
    using do_decode_image_error [of U h in0 img "UnknownChunk byte x y"] by auto
  then show ?thesis
    using and3_cases [of "drop_bit 6 tag"] op_at_known [of U i j s] decode_chunk_no_error [of U i j s e]
    by blast
qed

text \<open>
  C9 as stated fails: there is no input at all on which decoding yields the unknown-chunk
  error.
\<close>

theorem C9_counterexample:
  "\<not> (\<exists>U h in0 img byte x y. do_decode_image U h in0 img = Inl (UnknownChunk byte x y))"
proof
  assume "\<exists>U h in0 img byte x y. do_decode_image U h in0 img = Inl (UnknownChunk byte x y)"
  then obtain U h in0 img byte x y
    where "do_decode_image U h in0 img = Inl (UnknownChunk byte x y)" by blast
  then have "UnknownChunk byte x y = OutOfBounds" by (rule do_decode_image_error)
  then show False by simp
qed

section \<open>Runs\<close>

lemma fill_width [simp]: "img_width (fill img ps p) = img_width img"
  by (induction img ps p rule: fill.induct) auto

lemma fill_length [simp]: "length (img_a (fill img ps p)) = length (img_a img)"
  by (induction img ps p rule: fill.induct) auto

lemma fill_height [simp]: "img_height (fill img ps p) = img_height img"
  by (induction img ps p rule: fill.induct) auto

lemma fill_snoc:
  "fill img (ps @ [(i, j)]) p =
     (fill img ps p)\<lparr>img_a := (img_a (fill img ps p))[unat (i * img_width img + j) := Some p]\<rparr>"
  by (induction img ps p rule: fill.induct) auto

lemma loop_body_pending:
  assumes "run_length s \<noteq> 0"
      and "unat (i * img_width (decoded s) + j) < length (img_a (decoded s))"
  shows "loop_body U i j s =
           Inr (s\<lparr>decoded := fill (decoded s) [(i, j)] (last_pix s), run_length := run_length s - 1\<rparr>)"
  using assms by (simp add: loop_body_def Image_set_def Let_def)

lemma u32_pred: "(x :: u32) \<noteq> 0 \<Longrightarrow> unat (x - 1) = unat x - 1"
  by (simp add: unat_minus_one)

lemma steps_pending:
  assumes "length ps \<le> unat (run_length s)"
      and "\<forall>(i, j) \<in> set ps. unat (i * img_width (decoded s) + j) < length (img_a (decoded s))"
  shows "steps U ps s =
           Inr (s\<lparr>decoded := fill (decoded s) ps (last_pix s),
                  run_length := run_length s - word_of_nat (length ps)\<rparr>)"
  using assms
proof (induction ps arbitrary: s)
  case Nil
  then show ?case by simp
next
  case (Cons p ps)
  obtain i j where p: "p = (i, j)" by (cases p)
  have nz: "run_length s \<noteq> 0" using Cons.prems(1) by (auto simp: unat_eq_zero)
  have inb: "unat (i * img_width (decoded s) + j) < length (img_a (decoded s))"
    using Cons.prems(2) p by simp
  let ?s1 = "s\<lparr>decoded := fill (decoded s) [(i, j)] (last_pix s), run_length := run_length s - 1\<rparr>"
  have b: "loop_body U i j s = Inr ?s1" by (rule loop_body_pending [OF nz inb])
  have l: "length ps \<le> unat (run_length ?s1)"
    using Cons.prems(1) nz by (simp add: unat_minus_one)
  have r: "\<forall>(i, j) \<in> set ps. unat (i * img_width (decoded ?s1) + j) < length (img_a (decoded ?s1))"
    using Cons.prems(2) by simp
  show ?case
    using Cons.IH [OF l r] b p by simp
qed

lemma uint_drop6: "uint (drop_bit 6 (x::u8)) = uint x div 64"
  by (simp add: drop_bit_eq_div uint_div_distrib)

lemma run_field_le:
  assumes "drop_bit 6 (tag :: u8) = 3" and "tag \<noteq> 0xFE" and "tag \<noteq> 0xFF"
  shows "unat tag mod 64 \<le> 61"
proof -
  have "uint tag div 64 = 3" using assms(1) uint_drop6 [of tag] by simp
  moreover have "uint tag \<noteq> 254" using assms(2) by (simp add: word_uint_eq_iff)
  moreover have "uint tag \<noteq> 255" using assms(3) by (simp add: word_uint_eq_iff)
  ultimately have "uint tag mod 64 \<le> 61" by presburger
  moreover have "int (unat tag mod 64) = uint tag mod 64" by (simp add: of_nat_mod)
  ultimately show ?thesis by linarith
qed

lemma unat_and63: "unat ((x::u8) AND 63) = unat x mod 64"
proof -
  have "(63::u8) = mask 6" by (simp add: mask_eq_exp_minus_1)
  then have "x AND 63 = take_bit 6 x" by (simp add: take_bit_eq_mask)
  then show ?thesis by (simp add: take_bit_eq_mod unat_mod_distrib)
qed

lemma steps_run:
  assumes "run_length s = 0" and "inp s = tag # rest" and "drop_bit 6 tag = 3"
      and "tag \<noteq> 0xFE" and "tag \<noteq> 0xFF"
      and "ps \<noteq> []" and "length ps \<le> unat tag mod 64 + 1"
      and "\<forall>(i, j) \<in> set ps. unat (i * img_width (decoded s) + j) < length (img_a (decoded s))"
  shows "steps U ps s =
           Inr (s\<lparr>decoded := fill (decoded s) ps (last_pix s), inp := rest,
                  run_length := word_of_nat (unat tag mod 64 + 1 - length ps)\<rparr>)"
proof -
  obtain i j qs where ps: "ps = (i, j) # qs" using assms(6) by (cases ps) auto
  define v where "v = unat tag mod 64"
  have v61: "v \<le> 61" unfolding v_def by (rule run_field_le [OF assms(3,4,5)])
  have "int v = uint tag mod 64" by (simp add: v_def of_nat_mod)
  then have "(word_of_int (uint tag mod 64) :: u32) = word_of_int (int v)" by simp
  then have rl: "(word_of_int (uint (tag AND 63) + 1) - 1 :: u32) = word_of_nat v"
    by (simp add: and63)
  have uv: "unat (word_of_nat v :: u32) = v"
    using v61 by (simp add: unat_of_nat)
  have inb: "unat (i * img_width (decoded s) + j) < length (img_a (decoded s))"
    using assms(8) ps by simp
  let ?s1 = "s\<lparr>run_length := word_of_nat v, inp := rest,
               decoded := fill (decoded s) [(i, j)] (last_pix s), last_pix := last_pix s\<rparr>"
  have b: "loop_body U i j s = Inr ?s1"
    using loop_body_chunk [OF assms(1) decode_chunk_run [OF assms(2,3,4,5)] _ inb, of U] rl
    by simp
  have l: "length qs \<le> unat (run_length ?s1)"
    using assms(7) ps uv by (simp add: v_def)
  have r: "\<forall>(i, j) \<in> set qs. unat (i * img_width (decoded ?s1) + j) < length (img_a (decoded ?s1))"
    using assms(8) ps by simp
  have "word_of_nat v - word_of_nat (length qs) = (word_of_nat (v - length qs) :: u32)"
    using l uv by (simp add: of_nat_diff)
  then show ?thesis
    using steps_pending [OF l r, of U] b ps by (simp add: v_def)
qed

lemma fill_keeps:
  assumes "img_a img ! k = Some p"
  shows "img_a (fill img ps p) ! k = Some p"
  using assms
proof (induction img ps p rule: fill.induct)
  case (1 img p)
  then show ?case by simp
next
  case (2 img i j ps p)
  have "(img_a img)[unat (i * img_width img + j) := Some p] ! k = Some p"
    using "2.prems"
    by (cases "unat (i * img_width img + j) < length (img_a img)")
       (auto simp: nth_list_update list_update_beyond)
  then show ?case using "2.IH" by simp
qed

lemma fill_get:
  assumes "(i, j) \<in> set ps" and "unat (i * img_width img + j) < length (img_a img)"
  shows "Image_get (fill img ps p) i j = Inr (Some p)"
proof -
  have "img_a (fill img ps p) ! unat (i * img_width img + j) = Some p"
    using assms
  proof (induction img ps p rule: fill.induct)
    case (1 img p)
    then show ?case by simp
  next
    case (2 img i' j' ps p)
    let ?img = "img\<lparr>img_a := (img_a img)[unat (i' * img_width img + j') := Some p]\<rparr>"
    show ?case
    proof (cases "(i, j) \<in> set ps")
      case True
      then show ?thesis using "2.IH" "2.prems"(2) by simp
    next
      case False
      then have "(i, j) = (i', j')" using "2.prems"(1) by simp
      then have "img_a ?img ! unat (i * img_width img + j) = Some p"
        using "2.prems"(2) by simp
      then show ?thesis using fill_keeps [of ?img _ p ps] by simp
    qed
  qed
  then show ?thesis using assms(2) by (simp add: Image_get_def Let_def)
qed


lemma steps_run_exact:
  assumes "run_length s = 0" and "inp s = tag # rest" and "drop_bit 6 tag = 3"
      and "tag \<noteq> 0xFE" and "tag \<noteq> 0xFF"
      and "length ps = unat tag mod 64 + 1"
      and "\<forall>(i, j) \<in> set ps. unat (i * img_width (decoded s) + j) < length (img_a (decoded s))"
  shows "unat tag mod 64 \<le> 61
         \<and> steps U ps s = Inr (s\<lparr>decoded := fill (decoded s) ps (last_pix s), inp := rest\<rparr>)
         \<and> (\<forall>(i, j) \<in> set ps. Image_get (fill (decoded s) ps (last_pix s)) i j = Inr (Some (last_pix s)))
         \<and> (\<forall>n. 0 < n \<and> n < length ps \<longrightarrow>
               steps U (take n ps) s =
                 Inr (s\<lparr>decoded := fill (decoded s) (take n ps) (last_pix s), inp := rest,
                        run_length := word_of_nat (length ps - n)\<rparr>)
               \<and> (word_of_nat (length ps - n) :: u32) \<noteq> 0)"
proof (intro conjI allI impI)
  show v61: "unat tag mod 64 \<le> 61" by (rule run_field_le [OF assms(3,4,5)])
  have ne: "ps \<noteq> []" using assms(6) by auto
  have "steps U ps s =
      Inr (s\<lparr>decoded := fill (decoded s) ps (last_pix s), inp := rest,
             run_length := word_of_nat (unat tag mod 64 + 1 - length ps)\<rparr>)"
    using steps_run [OF assms(1,2,3,4,5) ne _ assms(7)] assms(6) by simp
  then show "steps U ps s = Inr (s\<lparr>decoded := fill (decoded s) ps (last_pix s), inp := rest\<rparr>)"
    using assms(1,6) by simp
  show "\<forall>(i, j) \<in> set ps. Image_get (fill (decoded s) ps (last_pix s)) i j = Inr (Some (last_pix s))"
    using assms(7) fill_get [of _ _ ps "decoded s" "last_pix s"] by auto
next
  fix n assume n: "0 < n \<and> n < length ps"
  then have ne: "take n ps \<noteq> []" by auto
  have len: "length (take n ps) = n" using n by simp
  have le: "length (take n ps) \<le> unat tag mod 64 + 1" using n assms(6) by simp
  have inb: "\<forall>(i, j) \<in> set (take n ps). unat (i * img_width (decoded s) + j) < length (img_a (decoded s))"
    using assms(7) by (auto dest: in_set_takeD)
  show "steps U (take n ps) s =
      Inr (s\<lparr>decoded := fill (decoded s) (take n ps) (last_pix s), inp := rest,
             run_length := word_of_nat (length ps - n)\<rparr>)"
    using steps_run [OF assms(1,2,3,4,5) ne le inb, of U] assms(6) len by simp
  define m where "m = length ps - n"
  have "m \<le> 61" "0 < m"
    using n assms(6) run_field_le [OF assms(3,4,5)] by (auto simp: m_def)
  then have "unat (word_of_nat m :: u32) = m"
    by (simp add: unat_of_nat)
  then have "(word_of_nat m :: u32) \<noteq> 0"
    using \<open>0 < m\<close> by (metis less_numeral_extra(3) unat_0)
  then show "(word_of_nat (length ps - n) :: u32) \<noteq> 0"
    unfolding m_def .
qed


section \<open>The grid and the scan\<close>

lemma cell_index:
  assumes "unat (w :: u32) * hh < 2 ^ 32" and "i < hh" and "j < unat w"
  shows "unat (word_of_nat i * w + word_of_nat j) = i * unat w + j"
    and "i * unat w + j < unat w * hh"
proof -
  have "i * unat w + j < i * unat w + unat w" using assms(3) by simp
  also have "\<dots> = Suc i * unat w" by simp
  also have "\<dots> \<le> hh * unat w" using assms(2) by (intro mult_le_mono1) simp
  finally show lt: "i * unat w + j < unat w * hh" by (simp add: mult.commute)
  have "word_of_nat i * w + word_of_nat j = (word_of_nat (i * unat w + j) :: u32)"
    by simp
  moreover have "i * unat w + j < 2 ^ 32" using lt assms(1) by simp
  ultimately show "unat (word_of_nat i * w + word_of_nat j) = i * unat w + j"
    by (simp only: unat_of_nat) simp
qed

lemma positions_set:
  "set (positions h) = {(word_of_nat i, word_of_nat j) | i j. i < unat (height h) \<and> j < unat (width h)}"
  by (fastforce simp: positions_def)

lemma positions_length: "length (positions h) = unat (width h) * unat (height h)"
  by (simp add: positions_def length_concat comp_def sum_list_triv)

lemma positions_in_grid:
  assumes "unat (width h) * unat (height h) < 2 ^ 32"
  shows "\<forall>(i, j) \<in> set (positions h). unat (i * width h + j) < unat (width h) * unat (height h)"
  using cell_index [OF assms] by (auto simp: positions_set)

lemma positions_cover:
  assumes "unat (width h) * unat (height h) < 2 ^ 32" and "k < unat (width h) * unat (height h)"
  shows "\<exists>(i, j) \<in> set (positions h). unat (i * width h + j) = k"
proof -
  let ?W = "unat (width h)"
  have W: "0 < ?W" using assms(2) by (cases "?W = 0") auto
  have i: "k div ?W < unat (height h)" using assms(2) W by (simp add: less_mult_imp_div_less mult.commute)
  have j: "k mod ?W < ?W" using W by simp
  have "unat (word_of_nat (k div ?W) * width h + word_of_nat (k mod ?W)) = k div ?W * ?W + k mod ?W"
    by (rule cell_index(1) [OF assms(1) i j])
  then have "unat (word_of_nat (k div ?W) * width h + word_of_nat (k mod ?W)) = k" by simp
  moreover have "(word_of_nat (k div ?W), word_of_nat (k mod ?W)) \<in> set (positions h)"
    using i j by (auto simp: positions_set)
  ultimately show ?thesis by blast
qed

lemma loop_body_frame:
  assumes "loop_body U i j s = Inr s'"
  shows "img_width (decoded s') = img_width (decoded s)
         \<and> img_height (decoded s') = img_height (decoded s)
         \<and> length (img_a (decoded s')) = length (img_a (decoded s))
         \<and> length (memory s') = length (memory s)"
  using loop_body_effect [OF assms] by simp

lemma steps_frame:
  assumes "steps U ps s = Inr s'"
  shows "img_width (decoded s') = img_width (decoded s)
         \<and> img_height (decoded s') = img_height (decoded s)
         \<and> length (img_a (decoded s')) = length (img_a (decoded s))
         \<and> length (memory s') = length (memory s)"
  using assms
proof (induction ps arbitrary: s)
  case Nil
  then show ?case by simp
next
  case (Cons p ps)
  obtain i j where p: "p = (i, j)" by (cases p)
  from Cons.prems p obtain s1 where b: "loop_body U i j s = Inr s1" and r: "steps U ps s1 = Inr s'"
    by (auto split: sum.splits)
  show ?case using Cons.IH [OF r] loop_body_frame [OF b] by simp
qed

lemma steps_total:
  assumes "\<forall>(i, j) \<in> set ps. unat (i * img_width (decoded s) + j) < length (img_a (decoded s))"
  shows "\<exists>s'. steps U ps s = Inr s'"
  using assms
proof (induction ps arbitrary: s)
  case Nil
  then show ?case by simp
next
  case (Cons p ps)
  obtain i j where p: "p = (i, j)" by (cases p)
  have "unat (i * img_width (decoded s) + j) < length (img_a (decoded s))"
    using Cons.prems p by simp
  then obtain s1 where b: "loop_body U i j s = Inr s1"
    using loop_body_total by blast
  have "\<forall>(i, j) \<in> set ps. unat (i * img_width (decoded s1) + j) < length (img_a (decoded s1))"
    using Cons.prems loop_body_frame [OF b] by simp
  from Cons.IH [OF this] obtain s' where "steps U ps s1 = Inr s'" by blast
  then show ?case using b p by simp
qed

lemma loop_body_written:
  assumes "loop_body U i j s = Inr s'"
  shows "img_a (decoded s') ! unat (i * img_width (decoded s) + j) \<noteq> None"
    and "img_a (decoded s) ! k \<noteq> None \<Longrightarrow> img_a (decoded s') ! k \<noteq> None"
  using loop_body_effect [OF assms] by (auto simp: nth_list_update)

lemma steps_keeps_written:
  assumes "steps U ps s = Inr s'" and "img_a (decoded s) ! k \<noteq> None"
  shows "img_a (decoded s') ! k \<noteq> None"
  using assms
proof (induction ps arbitrary: s)
  case Nil
  then show ?case by simp
next
  case (Cons p ps)
  obtain i j where p: "p = (i, j)" by (cases p)
  from Cons.prems(1) p obtain s1 where b: "loop_body U i j s = Inr s1" and r: "steps U ps s1 = Inr s'"
    by (auto split: sum.splits)
  show ?case using Cons.IH [OF r] loop_body_written(2) [OF b Cons.prems(2)] by simp
qed

lemma steps_written:
  assumes "steps U ps s = Inr s'" and "(i, j) \<in> set ps"
  shows "img_a (decoded s') ! unat (i * img_width (decoded s) + j) \<noteq> None"
  using assms
proof (induction ps arbitrary: s)
  case Nil
  then show ?case by simp
next
  case (Cons p ps)
  obtain i' j' where p: "p = (i', j')" by (cases p)
  from Cons.prems(1) p obtain s1 where b: "loop_body U i' j' s = Inr s1" and r: "steps U ps s1 = Inr s'"
    by (auto split: sum.splits)
  have w: "img_width (decoded s1) = img_width (decoded s)" using loop_body_frame [OF b] by simp
  show ?case
  proof (cases "(i, j) \<in> set ps")
    case True
    then show ?thesis using Cons.IH [OF r True] w by simp
  next
    case False
    then have "(i, j) = (i', j')" using Cons.prems(2) p by simp
    then have "img_a (decoded s1) ! unat (i * img_width (decoded s) + j) \<noteq> None"
      using loop_body_written(1) [OF b] by simp
    then show ?thesis by (rule steps_keeps_written [OF r])
  qed
qed

lemma init_grid:
  "decoded (init_state in0 (Image_new w hh)) = Image_new w hh"
  "img_width (Image_new w hh) = w"
  "unat w * unat hh < 2 ^ 32 \<Longrightarrow> length (img_a (Image_new w hh)) = unat w * unat hh"
  by (simp_all add: init_state_def Image_new_def unat_mult_lem [THEN iffD1])

lemma decode_total:
  assumes "unat (width h) * unat (height h) < 2 ^ 32"
  shows "\<exists>s'. outer_loop U h 0 (init_state in0 (Image_new (width h) (height h))) = Inr s'
           \<and> img_width (decoded s') = width h
           \<and> length (img_a (decoded s')) = unat (width h) * unat (height h)
           \<and> None \<notin> set (img_a (decoded s'))"
proof -
  let ?s = "init_state in0 (Image_new (width h) (height h))"
  have len: "length (img_a (Image_new (width h) (height h))) = unat (width h) * unat (height h)"
    by (rule init_grid(3) [OF assms])
  have inb: "\<forall>(i, j) \<in> set (positions h). unat (i * img_width (decoded ?s) + j) < length (img_a (decoded ?s))"
    using positions_in_grid [OF assms] by (simp add: init_grid(1,2) len)
  from steps_total [OF inb] obtain s' where s': "steps U (positions h) ?s = Inr s'" by blast
  have fr: "img_width (decoded s') = width h" "length (img_a (decoded s')) = unat (width h) * unat (height h)"
    using steps_frame [OF s'] by (simp_all add: init_grid(1,2) len)
  have "img_a (decoded s') ! k \<noteq> None" if "k < length (img_a (decoded s'))" for k
  proof -
    from that fr have "k < unat (width h) * unat (height h)" by simp
    from positions_cover [OF assms this] obtain i j
      where "(i, j) \<in> set (positions h)" "unat (i * width h + j) = k" by auto
    then show ?thesis using steps_written [OF s', of i j] by (simp add: init_grid(1,2))
  qed
  then have "None \<notin> set (img_a (decoded s'))" by (auto simp: in_set_conv_nth)
  then show ?thesis using s' fr by (simp add: outer_loop_steps)
qed

section \<open>A stream that ends early\<close>

lemma short3: "length (bs :: u8 list) < 3 \<Longrightarrow> bs = [] \<or> (\<exists>x. bs = [x]) \<or> (\<exists>x y. bs = [x, y])"
  by (cases bs; cases "tl bs"; cases "tl (tl bs)") auto

lemma short4:
  "length (bs :: u8 list) < 4 \<Longrightarrow>
     bs = [] \<or> (\<exists>x. bs = [x]) \<or> (\<exists>x y. bs = [x, y]) \<or> (\<exists>x y z. bs = [x, y, z])"
  by (cases bs; cases "tl bs"; cases "tl (tl bs)"; cases "tl (tl (tl bs))") auto

lemma decode_chunk_rgb_short:
  assumes "length bs < 3"
  shows "\<exists>s1. decode_chunk U i j (s\<lparr>inp := 0xFE # bs\<rparr>) =
           Inr (\<lparr>r = (bs @ [0, 0, 0]) ! 0, g = (bs @ [0, 0, 0]) ! 1, b = (bs @ [0, 0, 0]) ! 2,
                 a = a (last_pix s)\<rparr>, s1) \<and> inp s1 = []"
  using short3 [OF assms] by (auto simp: decode_chunk_def Let_def)

lemma decode_chunk_rgba_short:
  assumes "length bs < 4"
  shows "\<exists>s1. decode_chunk U i j (s\<lparr>inp := 0xFF # bs\<rparr>) =
           Inr (\<lparr>r = (bs @ drop (length bs) [0, 0, 0, 255]) ! 0,
                 g = (bs @ drop (length bs) [0, 0, 0, 255]) ! 1,
                 b = (bs @ drop (length bs) [0, 0, 0, 255]) ! 2,
                 a = (bs @ drop (length bs) [0, 0, 0, 255]) ! 3\<rparr>, s1) \<and> inp s1 = []"
  using short4 [OF assms] by (auto simp: decode_chunk_def Let_def)


text \<open>
  C8 as stated fails. The stream \<open>[0xFE]\<close> ends before the three bytes of its QOI_OP_RGB
  chunk; decoding a 1 by 1 image from it returns normally, with the pixel \<open>{0, 0, 0, 255}\<close>
  in the grid.
\<close>

theorem C8_counterexample:
  "do_decode_image no_indet
     \<lparr>magic = [0x71, 0x6F, 0x69, 0x66], width = 1, height = 1, channels = 4, colorspace = 0\<rparr>
     [0xFE] (Image_new 1 1)
   = Inr ([], \<lparr>img_a = [Some \<lparr>r = 0, g = 0, b = 0, a = 255\<rparr>], img_width = 1, img_height = 1\<rparr>)"
  by code_simp

text \<open>
  C8 (as amended). The decoder has no truncation error. For an image whose
  \<open>width * height\<close> fits 32 bits, decoding any stream, also one that ends inside a chunk or
  before the grid is full, returns normally with every cell of the grid written. A read at
  the end of the stream leaves its destination as it was: the missing bytes of a
  QOI_OP_RGB chunk stay 0, those of a QOI_OP_RGBA chunk stay 0, 0, 0 and 255.
\<close>

theorem C8_truncated_stream:
  assumes "unat (width h) * unat (height h) < 2 ^ 32"
  shows "(\<exists>rest img'. do_decode_image U h in0 (Image_new (width h) (height h)) = Inr (rest, img')
            \<and> length (img_a img') = unat (width h) * unat (height h)
            \<and> None \<notin> set (img_a img'))
         \<and> read_u8 [] x = (x, [])
         \<and> (length bs < 3 \<longrightarrow>
              (\<exists>s1. decode_chunk U i j (s\<lparr>inp := 0xFE # bs\<rparr>) =
                 Inr (\<lparr>r = (bs @ [0, 0, 0]) ! 0, g = (bs @ [0, 0, 0]) ! 1, b = (bs @ [0, 0, 0]) ! 2,
                       a = a (last_pix s)\<rparr>, s1) \<and> inp s1 = []))
         \<and> (length bs < 4 \<longrightarrow>
              (\<exists>s1. decode_chunk U i j (s\<lparr>inp := 0xFF # bs\<rparr>) =
                 Inr (\<lparr>r = (bs @ drop (length bs) [0, 0, 0, 255]) ! 0,
                 g = (bs @ drop (length bs) [0, 0, 0, 255]) ! 1,
                       b = (bs @ drop (length bs) [0, 0, 0, 255]) ! 2,
                       a = (bs @ drop (length bs) [0, 0, 0, 255]) ! 3\<rparr>, s1) \<and> inp s1 = []))"
proof -
  from decode_total [OF assms, of U in0] obtain s'
    where "outer_loop U h 0 (init_state in0 (Image_new (width h) (height h))) = Inr s'"
      "length (img_a (decoded s')) = unat (width h) * unat (height h)"
      "None \<notin> set (img_a (decoded s'))"
    by blast
  then have "\<exists>rest img'. do_decode_image U h in0 (Image_new (width h) (height h)) = Inr (rest, img')
            \<and> length (img_a img') = unat (width h) * unat (height h)
            \<and> None \<notin> set (img_a img')"
    by (simp add: do_decode_image_def)
  then show ?thesis
    using decode_chunk_rgb_short [of bs U i j s] decode_chunk_rgba_short [of bs U i j s]
    by simp
qed

text \<open>
  An instance: the stream \<open>FE 07\<close>, which ends inside its first chunk, on a 2 by 1
  image.
\<close>

theorem C8_truncated_stream_witness:
  "\<exists>rest img'. do_decode_image no_indet
       \<lparr>magic = [0x71, 0x6F, 0x69, 0x66], width = 2, height = 1, channels = 4, colorspace = 0\<rparr>
       [0xFE, 7] (Image_new 2 1) = Inr (rest, img')
     \<and> length (img_a img') = 2 \<and> None \<notin> set (img_a img')"
  using C8_truncated_stream [of "\<lparr>magic = [0x71, 0x6F, 0x69, 0x66], width = 2, height = 1, channels = 4, colorspace = 0\<rparr>"
          no_indet "[0xFE, 7]"]
  by simp


section \<open>A run inside the grid\<close>

lemma fill_nth:
  "img_a (fill img ps p) ! k =
     (if k < length (img_a img) \<and> k \<in> (\<lambda>(i, j). unat (i * img_width img + j)) ` set ps
      then Some p else img_a img ! k)"
proof (induction img ps p rule: fill.induct)
  case (1 img p)
  then show ?case by simp
next
  case (2 img i j ps p)
  then show ?case
    by (cases "unat (i * img_width img + j) < length (img_a img)")
       (auto simp: nth_list_update list_update_beyond)
qed

lemma concat_rows_nth:
  assumes "k < n * w"
  shows "concat (map (\<lambda>i. map (f i) [0..<w]) [0..<n]) ! k = f (k div w) (k mod w)"
  using assms
proof (induction n)
  case 0
  then show ?case by simp
next
  case (Suc n)
  have len: "length (concat (map (\<lambda>i. map (f i) [0..<w]) [0..<n])) = n * w"
    by (simp add: length_concat comp_def sum_list_triv)
  show ?case
  proof (cases "k < n * w")
    case True
    then show ?thesis using Suc.IH len by (simp add: nth_append)
  next
    case False
    then have ge: "n * w \<le> k" by simp
    have lt: "k - n * w < w" using Suc.prems ge by simp
    have d: "k div w = n" using ge Suc.prems
      by (metis div_nat_eqI mult.commute)
    have m: "k mod w = k - n * w" using d by (metis minus_div_mult_eq_mod)
    show ?thesis using False len lt d m by (simp add: nth_append)
  qed
qed

lemma positions_nth:
  assumes "k < unat (width h) * unat (height h)"
  shows "positions h ! k = (word_of_nat (k div unat (width h)), word_of_nat (k mod unat (width h)))"
  unfolding positions_def
  using concat_rows_nth [of k "unat (height h)" "unat (width h)" "\<lambda>i j. (word_of_nat i :: u32, word_of_nat j :: u32)"] assms
  by (simp add: mult.commute)

lemma positions_cells:
  assumes "unat (width h) * unat (height h) < 2 ^ 32"
  shows "map (\<lambda>(i, j). unat (i * width h + j)) (positions h) = [0..<unat (width h) * unat (height h)]"
proof (rule nth_equalityI)
  show "length (map (\<lambda>(i, j). unat (i * width h + j)) (positions h)) = length [0..<unat (width h) * unat (height h)]"
    by (simp add: positions_length)
next
  fix k assume "k < length (map (\<lambda>(i, j). unat (i * width h + j)) (positions h))"
  then have k: "k < unat (width h) * unat (height h)" by (simp add: positions_length)
  let ?W = "unat (width h)"
  have W: "0 < ?W" using k by (cases "?W = 0") auto
  have i: "k div ?W < unat (height h)" using k W by (simp add: less_mult_imp_div_less mult.commute)
  have j: "k mod ?W < ?W" using W by simp
  have "unat (word_of_nat (k div ?W) * width h + word_of_nat (k mod ?W)) = k div ?W * ?W + k mod ?W"
    by (rule cell_index(1) [OF assms i j])
  then show "map (\<lambda>(i, j). unat (i * width h + j)) (positions h) ! k = [0..<unat (width h) * unat (height h)] ! k"
    using k by (simp add: positions_nth positions_length)
qed

lemma segment_cells:
  assumes "unat (width h) * unat (height h) < 2 ^ 32" and "positions h = pre @ ps @ post"
  shows "map (\<lambda>(i, j). unat (i * width h + j)) ps = [length pre..<length pre + length ps]"
    and "length pre + length ps \<le> unat (width h) * unat (height h)"
proof -
  let ?c = "\<lambda>(i, j). unat (i * width h + j)"
  have n: "length pre + length ps + length post = unat (width h) * unat (height h)"
    using positions_length [of h] assms(2) by simp
  then show "length pre + length ps \<le> unat (width h) * unat (height h)" by simp
  have "map ?c pre @ map ?c ps @ map ?c post = [0..<unat (width h) * unat (height h)]"
    using positions_cells [OF assms(1)] assms(2) by simp
  then have "take (length ps) (drop (length pre) (map ?c pre @ map ?c ps @ map ?c post))
      = take (length ps) (drop (length pre) [0..<unat (width h) * unat (height h)])"
    by simp
  then have "map ?c ps = take (length ps) (drop (length pre) [0..<unat (width h) * unat (height h)])"
    by simp
  also have "\<dots> = [length pre..<length pre + length ps]"
    using n by simp
  finally show "map ?c ps = [length pre..<length pre + length ps]" .
qed

text \<open>
  C4 as stated fails. On a 1 by 1 image the stream \<open>FD AA\<close> starts with a QOI_OP_RUN chunk
  of field 61: one cell is filled, not 62, and the decode returns with 61 of the run still
  counted in \<open>run_length\<close> and the byte \<open>0xAA\<close> unread.
\<close>

theorem C4_counterexample:
  "do_decode_image no_indet
     \<lparr>magic = [0x71, 0x6F, 0x69, 0x66], width = 1, height = 1, channels = 4, colorspace = 0\<rparr>
     [0xFD, 0xAA] (Image_new 1 1)
   = Inr ([0xAA], \<lparr>img_a = [Some \<lparr>r = 0, g = 0, b = 0, a = 255\<rparr>], img_width = 1, img_height = 1\<rparr>)
   \<and> (case outer_loop no_indet
           \<lparr>magic = [0x71, 0x6F, 0x69, 0x66], width = 1, height = 1, channels = 4, colorspace = 0\<rparr>
           0 (init_state [0xFD, 0xAA] (Image_new 1 1)) of
         Inl e \<Rightarrow> None
       | Inr s \<Rightarrow> Some (run_length s, inp s)) = Some (61, [0xAA])"
  by code_simp

text \<open>
  C4 (as amended). In a decode of an image whose \<open>width * height\<close> fits 32 bits, a
  QOI_OP_RUN tag with field \<open>v\<close> (so \<open>v \<le> 61\<close>) read with no run pending after the
  iterations over \<open>pre\<close>, when at least \<open>v + 1\<close> positions are left in the scan: the next
  \<open>v + 1\<close> iterations of the loops, over \<open>ps\<close>, set exactly the cells \<open>length pre\<close> (where
  the tag was read) to \<open>length pre + v\<close> to \<open>last_pix\<close> and leave every other cell; they
  consume the tag and nothing else, and leave the table, \<open>last_pix\<close> and \<open>run_length = 0\<close>
  as before, so the decode goes on from there by reading a tag; after any smaller number of
  them the run is still pending. Field 61 gives 62 pixels.
\<close>

theorem C4_run:
  assumes "unat (width h) * unat (height h) < 2 ^ 32"
      and "positions h = pre @ ps @ post"
      and "steps U pre (init_state in0 (Image_new (width h) (height h))) = Inr s"
      and "run_length s = 0" and "inp s = tag # rest"
      and "drop_bit 6 tag = 3" and "tag \<noteq> 0xFE" and "tag \<noteq> 0xFF"
      and "length ps = unat tag mod 64 + 1"
  shows "unat tag mod 64 \<le> 61
         \<and> steps U (pre @ ps) (init_state in0 (Image_new (width h) (height h)))
             = Inr (s\<lparr>decoded := fill (decoded s) ps (last_pix s), inp := rest\<rparr>)
         \<and> outer_loop U h 0 (init_state in0 (Image_new (width h) (height h)))
             = steps U post (s\<lparr>decoded := fill (decoded s) ps (last_pix s), inp := rest\<rparr>)
         \<and> do_decode_image U h in0 (Image_new (width h) (height h))
             = (case steps U post (s\<lparr>decoded := fill (decoded s) ps (last_pix s), inp := rest\<rparr>) of
                  Inl e \<Rightarrow> Inl e
                | Inr t \<Rightarrow> Inr (inp t, decoded t))
         \<and> (\<forall>k < unat (width h) * unat (height h).
               img_a (fill (decoded s) ps (last_pix s)) ! k =
                 (if length pre \<le> k \<and> k \<le> length pre + unat tag mod 64
                  then Some (last_pix s) else img_a (decoded s) ! k))
         \<and> (\<forall>n. 0 < n \<and> n < length ps \<longrightarrow>
               steps U (pre @ take n ps) (init_state in0 (Image_new (width h) (height h))) =
                 Inr (s\<lparr>decoded := fill (decoded s) (take n ps) (last_pix s), inp := rest,
                        run_length := word_of_nat (length ps - n)\<rparr>)
               \<and> (word_of_nat (length ps - n) :: u32) \<noteq> 0)"
proof -
  let ?s0 = "init_state in0 (Image_new (width h) (height h))"
  let ?s' = "s\<lparr>decoded := fill (decoded s) ps (last_pix s), inp := rest\<rparr>"
  let ?N = "unat (width h) * unat (height h)"
  have len: "length (img_a (Image_new (width h) (height h))) = ?N"
    by (rule init_grid(3) [OF assms(1)])
  have fr: "img_width (decoded s) = width h" "length (img_a (decoded s)) = ?N"
    using steps_frame [OF assms(3)] by (simp_all add: init_grid(1,2) len)
  have inb: "\<forall>(i, j) \<in> set ps. unat (i * img_width (decoded s) + j) < length (img_a (decoded s))"
    using positions_in_grid [OF assms(1)] assms(2) fr by auto
  note ex = steps_run_exact [OF assms(4,5,6,7,8,9) inb, of U]
  have v61: "unat tag mod 64 \<le> 61" using ex by blast
  have run: "steps U ps s = Inr ?s'" using ex by blast
  have upto: "steps U (pre @ ps) ?s0 = Inr ?s'"
    using assms(3) run by (simp add: steps_append)
  have loops: "outer_loop U h 0 ?s0 = steps U post ?s'"
    using assms(2,3) run by (simp add: outer_loop_steps steps_append)
  then have dec: "do_decode_image U h in0 (Image_new (width h) (height h))
             = (case steps U post ?s' of Inl e \<Rightarrow> Inl e | Inr t \<Rightarrow> Inr (inp t, decoded t))"
    by (simp add: do_decode_image_def)
  have cells: "\<forall>k < ?N. img_a (fill (decoded s) ps (last_pix s)) ! k =
                 (if length pre \<le> k \<and> k \<le> length pre + unat tag mod 64
                  then Some (last_pix s) else img_a (decoded s) ! k)"
  proof (intro allI impI)
    fix k assume k: "k < ?N"
    have "(\<lambda>(i, j). unat (i * img_width (decoded s) + j)) ` set ps
        = set (map (\<lambda>(i, j). unat (i * width h + j)) ps)"
      using fr(1) by simp
    also have "\<dots> = {length pre..<length pre + length ps}"
      using segment_cells(1) [OF assms(1,2)] by simp
    finally have "k \<in> (\<lambda>(i, j). unat (i * img_width (decoded s) + j)) ` set ps
        \<longleftrightarrow> length pre \<le> k \<and> k \<le> length pre + unat tag mod 64"
      using assms(9) by auto
    then show "img_a (fill (decoded s) ps (last_pix s)) ! k =
                 (if length pre \<le> k \<and> k \<le> length pre + unat tag mod 64
                  then Some (last_pix s) else img_a (decoded s) ! k)"
      using k fr(2) by (simp add: fill_nth)
  qed
  have pref: "\<forall>n. 0 < n \<and> n < length ps \<longrightarrow>
               steps U (pre @ take n ps) ?s0 =
                 Inr (s\<lparr>decoded := fill (decoded s) (take n ps) (last_pix s), inp := rest,
                        run_length := word_of_nat (length ps - n)\<rparr>)
               \<and> (word_of_nat (length ps - n) :: u32) \<noteq> 0"
  proof (intro allI impI)
    fix n assume n: "0 < n \<and> n < length ps"
    from ex n have
      "steps U (take n ps) s =
         Inr (s\<lparr>decoded := fill (decoded s) (take n ps) (last_pix s), inp := rest,
                run_length := word_of_nat (length ps - n)\<rparr>)
       \<and> (word_of_nat (length ps - n) :: u32) \<noteq> 0"
      by blast
    then show "steps U (pre @ take n ps) ?s0 =
                 Inr (s\<lparr>decoded := fill (decoded s) (take n ps) (last_pix s), inp := rest,
                        run_length := word_of_nat (length ps - n)\<rparr>)
               \<and> (word_of_nat (length ps - n) :: u32) \<noteq> 0"
      using assms(3) by (simp add: steps_append)
  qed
  from v61 upto loops dec cells pref show ?thesis by (intro conjI)
qed


text \<open>
  An instance: on an 8 by 8 image, \<open>FE 01 02 03\<close> then the tag \<open>0xFD\<close> (field 61): after 63
  iterations the cells 0 to 62 hold \<open>{1, 2, 3, 255}\<close>, the last cell is unwritten and the
  next byte is unread.
\<close>

theorem C4_run_witness:
  "steps no_indet
     (take 63 (positions \<lparr>magic = [0x71, 0x6F, 0x69, 0x66], width = 8, height = 8, channels = 4, colorspace = 0\<rparr>))
     (init_state [0xFE, 1, 2, 3, 0xFD, 0x00] (Image_new 8 8))
   = Inr \<lparr>memory = (replicate 64 \<lparr>r = 0, g = 0, b = 0, a = 0\<rparr>)[23 := \<lparr>r = 1, g = 2, b = 3, a = 255\<rparr>],
          last_pix = \<lparr>r = 1, g = 2, b = 3, a = 255\<rparr>, run_length = 0, inp = [0x00],
          decoded = \<lparr>img_a = replicate 63 (Some \<lparr>r = 1, g = 2, b = 3, a = 255\<rparr>) @ [None],
                      img_width = 8, img_height = 8\<rparr>\<rparr>"
proof -
  let ?h = "\<lparr>magic = [0x71, 0x6F, 0x69, 0x66], width = 8, height = 8, channels = 4, colorspace = 0\<rparr>"
  let ?P = "\<lparr>r = 1, g = 2, b = 3, a = 255\<rparr>"
  let ?pre = "take 1 (positions ?h)"
  let ?ps = "take 62 (drop 1 (positions ?h))"
  let ?post = "drop 63 (positions ?h)"
  let ?s = "\<lparr>memory = (replicate 64 \<lparr>r = 0, g = 0, b = 0, a = 0\<rparr>)[23 := ?P],
            last_pix = ?P, run_length = 0, inp = [0xFD, 0x00],
            decoded = \<lparr>img_a = Some ?P # replicate 63 None, img_width = 8, img_height = 8\<rparr>\<rparr>"
  have n: "length (positions ?h) = 64" by (simp add: positions_length)
  have h1: "unat (width ?h) * unat (height ?h) < 2 ^ 32" by simp
  have "take 62 (drop 1 (positions ?h)) @ drop 62 (drop 1 (positions ?h)) = drop 1 (positions ?h)"
    by (rule append_take_drop_id)
  then have "?ps @ ?post = drop 1 (positions ?h)" by simp
  then have h2: "positions ?h = ?pre @ ?ps @ ?post" by simp
  have h3: "steps no_indet ?pre (init_state [0xFE, 1, 2, 3, 0xFD, 0x00] (Image_new (width ?h) (height ?h))) = Inr ?s"
    by code_simp
  have h4: "run_length ?s = 0" by simp
  have h5: "inp ?s = [0xFD, 0x00]" by simp
  have h6: "drop_bit 6 (0xFD :: u8) = 3" by simp
  have h7: "(0xFD :: u8) \<noteq> 0xFE" by simp
  have h8: "(0xFD :: u8) \<noteq> 0xFF" by simp
  have h9: "length ?ps = unat (0xFD :: u8) mod 64 + 1" using n by simp
  have t: "?pre @ ?ps = take 63 (positions ?h)"
    using take_add [of 1 62 "positions ?h"] by simp
  from C4_run [OF h1 h2 h3 h4 h5 h6 h7 h8 h9]
  have r: "steps no_indet (?pre @ ?ps) (init_state [0xFE, 1, 2, 3, 0xFD, 0x00] (Image_new (width ?h) (height ?h)))
         = Inr (?s\<lparr>decoded := fill (decoded ?s) ?ps (last_pix ?s), inp := [0x00]\<rparr>)"
    by blast
  have f: "fill (decoded ?s) ?ps (last_pix ?s)
      = \<lparr>img_a = replicate 63 (Some ?P) @ [None], img_width = 8, img_height = 8\<rparr>"
    by code_simp
  show ?thesis using r unfolding t f by simp
qed

section \<open>A run that reaches past the grid\<close>

text \<open>
  C10. A decode of an image whose \<open>width * height\<close> fits 32 bits, at the point where a
  QOI_OP_RUN tag with field \<open>v\<close> is read with no more than \<open>v\<close> positions left (\<open>post\<close>, the
  one of the tag included), so that its \<open>v + 1\<close> pixels do not fit: the remaining cells are
  set to \<open>last_pix\<close>, the loops end after \<open>width * height\<close> iterations in all, the decoder
  returns normally, and the rest of the run, still counted in \<open>run_length\<close>, is dropped
  with the locals.
\<close>

theorem C10_run_truncated:
  assumes "unat (width h) * unat (height h) < 2 ^ 32"
      and "positions h = pre @ post" and "post \<noteq> []"
      and "steps U pre (init_state in0 (Image_new (width h) (height h))) = Inr s"
      and "run_length s = 0" and "inp s = tag # rest"
      and "drop_bit 6 tag = 3" and "tag \<noteq> 0xFE" and "tag \<noteq> 0xFF"
      and "length post \<le> unat tag mod 64"
  shows "do_decode_image U h in0 (Image_new (width h) (height h))
           = Inr (rest, fill (decoded s) post (last_pix s))
         \<and> outer_loop U h 0 (init_state in0 (Image_new (width h) (height h)))
           = Inr (s\<lparr>decoded := fill (decoded s) post (last_pix s), inp := rest,
                    run_length := word_of_nat (unat tag mod 64 + 1 - length post)\<rparr>)
         \<and> (word_of_nat (unat tag mod 64 + 1 - length post) :: u32) \<noteq> 0
         \<and> length pre + length post = unat (width h) * unat (height h)
         \<and> (\<forall>(i, j) \<in> set post. Image_get (fill (decoded s) post (last_pix s)) i j
                                    = Inr (Some (last_pix s)))"
proof -
  let ?s0 = "init_state in0 (Image_new (width h) (height h))"
  let ?s' = "s\<lparr>decoded := fill (decoded s) post (last_pix s), inp := rest,
               run_length := word_of_nat (unat tag mod 64 + 1 - length post)\<rparr>"
  have len: "length (img_a (Image_new (width h) (height h))) = unat (width h) * unat (height h)"
    by (rule init_grid(3) [OF assms(1)])
  have fr: "img_width (decoded s) = width h"
      "length (img_a (decoded s)) = unat (width h) * unat (height h)"
    using steps_frame [OF assms(4)] by (simp_all add: init_grid(1,2) len)
  have inb: "\<forall>(i, j) \<in> set post. unat (i * img_width (decoded s) + j) < length (img_a (decoded s))"
    using positions_in_grid [OF assms(1)] assms(2) fr by auto
  have le: "length post \<le> unat tag mod 64 + 1" using assms(10) by simp
  have run: "steps U post s = Inr ?s'"
    by (rule steps_run [OF assms(5,6,7,8,9,3) le inb])
  have loops: "outer_loop U h 0 ?s0 = Inr ?s'"
    using assms(2,4) run by (simp add: outer_loop_steps steps_append)
  then have dec: "do_decode_image U h in0 (Image_new (width h) (height h))
           = Inr (rest, fill (decoded s) post (last_pix s))"
    by (simp add: do_decode_image_def)
  define m where "m = unat tag mod 64 + 1 - length post"
  have "0 < m" "m \<le> 62"
    using assms(10) run_field_le [OF assms(7,8,9)] by (auto simp: m_def)
  then have "unat (word_of_nat m :: u32) = m" by (simp add: unat_of_nat)
  then have "(word_of_nat m :: u32) \<noteq> 0"
    using \<open>0 < m\<close> by (metis less_numeral_extra(3) unat_0)
  then have surplus: "(word_of_nat (unat tag mod 64 + 1 - length post) :: u32) \<noteq> 0"
    unfolding m_def .
  have count: "length pre + length post = unat (width h) * unat (height h)"
    using positions_length [of h] assms(2) by simp
  have cells: "\<forall>(i, j) \<in> set post. Image_get (fill (decoded s) post (last_pix s)) i j
                                    = Inr (Some (last_pix s))"
    using inb fill_get [of _ _ post "decoded s" "last_pix s"] by auto
  from dec loops surplus count cells show ?thesis by (intro conjI)
qed

text \<open>
  An instance: on a 2 by 2 image, \<open>FE 01 02 03\<close> then the tag \<open>0xC7\<close>, a run of 8 with
  three positions left.
\<close>

theorem C10_run_truncated_witness:
  "do_decode_image no_indet
     \<lparr>magic = [0x71, 0x6F, 0x69, 0x66], width = 2, height = 2, channels = 4, colorspace = 0\<rparr>
     [0xFE, 1, 2, 3, 0xC7] (Image_new 2 2)
   = Inr ([], \<lparr>img_a = [Some \<lparr>r = 1, g = 2, b = 3, a = 255\<rparr>, Some \<lparr>r = 1, g = 2, b = 3, a = 255\<rparr>,
                        Some \<lparr>r = 1, g = 2, b = 3, a = 255\<rparr>, Some \<lparr>r = 1, g = 2, b = 3, a = 255\<rparr>],
               img_width = 2, img_height = 2\<rparr>)"
proof -
  let ?h = "\<lparr>magic = [0x71, 0x6F, 0x69, 0x66], width = 2, height = 2, channels = 4, colorspace = 0\<rparr>"
  let ?P = "\<lparr>r = 1, g = 2, b = 3, a = 255\<rparr>"
  let ?s = "\<lparr>memory = (replicate 64 \<lparr>r = 0, g = 0, b = 0, a = 0\<rparr>)[23 := ?P],
            last_pix = ?P, run_length = 0, inp = [0xC7],
            decoded = \<lparr>img_a = [Some ?P, None, None, None], img_width = 2, img_height = 2\<rparr>\<rparr>"
  let ?post = "[(0, 1), (1, 0), (1, 1)] :: (u32 \<times> u32) list"
  have h1: "unat (width ?h) * unat (height ?h) < 2 ^ 32" by simp
  have h2: "positions ?h = [(0, 0)] @ ?post" by code_simp
  have h3: "?post \<noteq> []" by simp
  have h4: "steps no_indet [(0, 0)] (init_state [0xFE, 1, 2, 3, 0xC7] (Image_new (width ?h) (height ?h))) = Inr ?s"
    by code_simp
  have h5: "run_length ?s = 0" by simp
  have h6: "inp ?s = [0xC7]" by simp
  have h7: "drop_bit 6 (0xC7 :: u8) = 3" by simp
  have h8: "(0xC7 :: u8) \<noteq> 0xFE" by simp
  have h9: "(0xC7 :: u8) \<noteq> 0xFF" by simp
  have h10: "length ?post \<le> unat (0xC7 :: u8) mod 64" by simp
  from C10_run_truncated [OF h1 h2 h3 h4 h5 h6 h7 h8 h9 h10]
  have "do_decode_image no_indet ?h [0xFE, 1, 2, 3, 0xC7] (Image_new (width ?h) (height ?h))
           = Inr ([], fill (decoded ?s) ?post (last_pix ?s))"
    by blast
  then show ?thesis by simp
qed

section \<open>The invariant of the decoder\<close>

lemma most_recent_Cons:
  "most_recent k (e # evs) =
     (case most_recent k evs of
        Some p \<Rightarrow> Some p
      | None \<Rightarrow> if recorded (fst e) \<and> nat (qoi_pix_hash (snd e)) = k then Some (snd e) else None)"
  by (cases e) (auto simp: most_recent_def split: list.splits)

lemma emitted_append:
  "emitted U (ps @ qs) s =
     (case steps U ps s of
        Inl e \<Rightarrow> emitted U ps s
      | Inr s' \<Rightarrow> emitted U ps s @ emitted U qs s')"
  by (induction ps arbitrary: s) (auto split: sum.splits)

lemma emitted_length:
  "steps U ps s = Inr s' \<Longrightarrow> length (emitted U ps s) = length ps"
  by (induction ps arbitrary: s) (auto split: sum.splits)

lemma steps_memory:
  assumes "steps U ps s0 = Inr s" and "length (memory s0) = 64" and "k < 64"
  shows "memory s ! k = (case most_recent k (emitted U ps s0) of None \<Rightarrow> memory s0 ! k | Some p \<Rightarrow> p)"
  using assms
proof (induction ps arbitrary: s0)
  case Nil
  then show ?case by (simp add: most_recent_def)
next
  case (Cons q ps)
  obtain i j where q: "q = (i, j)" by (cases q)
  from Cons.prems(1) q obtain s1 where b: "loop_body U i j s0 = Inr s1" and r: "steps U ps s1 = Inr s"
    by (auto split: sum.splits)
  note e = loop_body_effect [OF b]
  have l1: "length (memory s1) = 64" using e Cons.prems(2) by simp
  have ih: "memory s ! k = (case most_recent k (emitted U ps s1) of None \<Rightarrow> memory s1 ! k | Some p \<Rightarrow> p)"
    by (rule Cons.IH [OF r l1 Cons.prems(3)])
  have m1: "memory s1 ! k =
      (if recorded (op_at U i j s0) \<and> nat (qoi_pix_hash (last_pix s1)) = k then last_pix s1
       else memory s0 ! k)"
    using e Cons.prems(2,3) by (auto simp: nth_list_update)
  have em: "emitted U (q # ps) s0 = (op_at U i j s0, last_pix s1) # emitted U ps s1"
    using b q by simp
  show ?case
    unfolding em most_recent_Cons using ih m1 by (auto split: option.splits)
qed

lemma steps_last:
  assumes "steps U ps s0 = Inr s" and "ps \<noteq> []"
  shows "Image_get (decoded s) (fst (last ps)) (snd (last ps)) = Inr (Some (last_pix s))
         \<and> last_pix s = snd (last (emitted U ps s0))"
proof -
  obtain i j where l: "last ps = (i, j)" by (cases "last ps")
  have ps: "ps = butlast ps @ [(i, j)]" using assms(2) l by (metis append_butlast_last_id)
  from assms(1) obtain s1
    where m: "steps U (butlast ps) s0 = Inr s1" and b: "loop_body U i j s1 = Inr s"
    by (subst (asm) ps) (auto simp: steps_append split: sum.splits)
  note e = loop_body_effect [OF b]
  have g: "Image_get (decoded s) i j = Inr (Some (last_pix s))"
    using e by (simp add: Image_get_def Let_def)
  have "emitted U ps s0 = emitted U (butlast ps) s0 @ [(op_at U i j s1, last_pix s)]"
    using m b by (subst ps) (simp add: emitted_append)
  then show ?thesis using g l by simp
qed

lemma emitted_recorded:
  assumes "(c, p) \<in> set evs" and "recorded c"
  shows "most_recent (nat (qoi_pix_hash p)) evs \<noteq> None"
proof -
  have "(c, p) \<in> set (filter (\<lambda>(c', p'). recorded c' \<and> nat (qoi_pix_hash p') = nat (qoi_pix_hash p)) evs)"
    using assms by simp
  then have "filter (\<lambda>(c', p'). recorded c' \<and> nat (qoi_pix_hash p') = nat (qoi_pix_hash p)) evs \<noteq> []"
    by (metis empty_iff list.set(1))
  then show ?thesis
    by (simp add: most_recent_def split: list.splits)
qed

lemma loop_body_not_recorded:
  "loop_body U i j t = Inr t' \<Longrightarrow> \<not> recorded (op_at U i j t) \<Longrightarrow> memory t' = memory t"
  using loop_body_effect [of U i j t t'] by simp

text \<open>
  C1. A decode is the loop body run over \<open>positions h\<close> from the initial state. After any
  number of its iterations, over the positions \<open>ps\<close>, with one pixel emitted by each:
  \<^item> the pixel in the grid at the last position visited is \<open>last_pix\<close>, the last pixel
    emitted;
  \<^item> every slot of the table holds the most recent pixel of a QOI_OP_RGB, QOI_OP_RGBA,
    QOI_OP_DIFF or QOI_OP_LUMA operation that hashed to it, and the zero pixel if there was
    none; so for each pixel of such an operation the slot at its hash holds the most recent
    such pixel with that hash;
  \<^item> an iteration that takes the QOI_OP_INDEX or QOI_OP_RUN branch, or continues a pending
    run, leaves the table as it was.
\<close>

theorem C1_invariant:
  assumes "steps U ps (init_state in0 img) = Inr s"
  shows "outer_loop U h 0 (init_state in0 img) = steps U (positions h) (init_state in0 img)
         \<and> length (emitted U ps (init_state in0 img)) = length ps
         \<and> (ps \<noteq> [] \<longrightarrow>
               Image_get (decoded s) (fst (last ps)) (snd (last ps)) = Inr (Some (last_pix s))
               \<and> last_pix s = snd (last (emitted U ps (init_state in0 img))))
         \<and> (\<forall>k<64. memory s ! k =
               (case most_recent k (emitted U ps (init_state in0 img)) of
                  None \<Rightarrow> \<lparr>r = 0, g = 0, b = 0, a = 0\<rparr>
                | Some p \<Rightarrow> p))
         \<and> (\<forall>(c, p) \<in> set (emitted U ps (init_state in0 img)).
               c \<in> {QOI_OP_RGB, QOI_OP_RGBA, QOI_OP_DIFF, QOI_OP_LUMA} \<longrightarrow>
               memory s ! nat (qoi_pix_hash p) =
                 snd (last (filter (\<lambda>(c', p'). c' \<in> {QOI_OP_RGB, QOI_OP_RGBA, QOI_OP_DIFF, QOI_OP_LUMA}
                                              \<and> qoi_pix_hash p' = qoi_pix_hash p)
                                   (emitted U ps (init_state in0 img)))))
         \<and> (\<forall>i j t t'. loop_body U i j t = Inr t'
               \<and> op_at U i j t \<in> {QOI_OP_INDEX, QOI_OP_RUN, PENDING_RUN} \<longrightarrow> memory t' = memory t)"
proof (intro conjI allI impI ballI)
  let ?s0 = "init_state in0 img"
  let ?evs = "emitted U ps ?s0"
  have l0: "length (memory ?s0) = 64" by (simp add: init_state_def)
  have z: "memory ?s0 ! k = \<lparr>r = 0, g = 0, b = 0, a = 0\<rparr>" if "k < 64" for k
    using that by (simp add: init_state_def)
  show "outer_loop U h 0 ?s0 = steps U (positions h) ?s0" by (rule outer_loop_steps)
  show "length ?evs = length ps" by (rule emitted_length [OF assms])
  show "Image_get (decoded s) (fst (last ps)) (snd (last ps)) = Inr (Some (last_pix s))"
    if "ps \<noteq> []" using steps_last [OF assms that] by simp
  show "last_pix s = snd (last ?evs)" if "ps \<noteq> []"
    using steps_last [OF assms that] by simp
  show "memory s ! k = (case most_recent k ?evs of None \<Rightarrow> \<lparr>r = 0, g = 0, b = 0, a = 0\<rparr> | Some p \<Rightarrow> p)"
    if "k < 64" for k
    using steps_memory [OF assms l0 that] z [OF that] by (simp split: option.splits)
  show "case x of (c, p) \<Rightarrow> c \<in> {QOI_OP_RGB, QOI_OP_RGBA, QOI_OP_DIFF, QOI_OP_LUMA} \<longrightarrow>
               memory s ! nat (qoi_pix_hash p) =
                 snd (last (filter (\<lambda>(c', p'). c' \<in> {QOI_OP_RGB, QOI_OP_RGBA, QOI_OP_DIFF, QOI_OP_LUMA}
                                              \<and> qoi_pix_hash p' = qoi_pix_hash p) ?evs))"
    if x: "x \<in> set ?evs" for x
  proof -
    obtain c p where cp: "x = (c, p)" by (cases x)
    have "memory s ! nat (qoi_pix_hash p) =
                 snd (last (filter (\<lambda>(c', p'). c' \<in> {QOI_OP_RGB, QOI_OP_RGBA, QOI_OP_DIFF, QOI_OP_LUMA}
                                              \<and> qoi_pix_hash p' = qoi_pix_hash p) ?evs))"
      if c: "c \<in> {QOI_OP_RGB, QOI_OP_RGBA, QOI_OP_DIFF, QOI_OP_LUMA}"
    proof -
      have rc: "recorded c" using c by (auto simp: recorded_def)
      have eq: "(\<lambda>(c', p'). c' \<in> {QOI_OP_RGB, QOI_OP_RGBA, QOI_OP_DIFF, QOI_OP_LUMA}
                                              \<and> qoi_pix_hash p' = qoi_pix_hash p)
           = (\<lambda>(c', p'). recorded c' \<and> nat (qoi_pix_hash p') = nat (qoi_pix_hash p))"
        using qoi_pix_hash_range by (auto simp: recorded_def fun_eq_iff nat_eq_iff)
      from emitted_recorded [OF _ rc] x cp
      obtain q where q: "most_recent (nat (qoi_pix_hash p)) ?evs = Some q" by auto
      then have "q = snd (last (filter (\<lambda>(c', p'). recorded c' \<and> nat (qoi_pix_hash p') = nat (qoi_pix_hash p)) ?evs))"
        by (auto simp: most_recent_def split: list.splits)
      moreover have "memory s ! nat (qoi_pix_hash p) = q"
        using steps_memory [OF assms l0 qoi_pix_hash_slot [of p]] q by simp
      ultimately show ?thesis unfolding eq by simp
    qed
    then show ?thesis using cp by simp
  qed
next
  fix i j t t'
  assume "loop_body U i j t = Inr t' \<and> op_at U i j t \<in> {QOI_OP_INDEX, QOI_OP_RUN, PENDING_RUN}"
  then show "memory t' = memory t"
    using loop_body_not_recorded [of U i j t t'] by (auto simp: recorded_def)
qed

text \<open>
  An instance: on a 3 by 1 image, \<open>FE 01 02 03\<close>, \<open>0x40\<close> (a QOI_OP_DIFF) and \<open>0x17\<close>
  (QOI_OP_INDEX 23).
\<close>

theorem C1_invariant_witness:
  "\<exists>s. steps no_indet [(0, 0), (0, 1), (0, 2)]
          (init_state [0xFE, 1, 2, 3, 0x40, 0x17] (Image_new 3 1)) = Inr s
       \<and> emitted no_indet [(0, 0), (0, 1), (0, 2)]
          (init_state [0xFE, 1, 2, 3, 0x40, 0x17] (Image_new 3 1))
         = [(QOI_OP_RGB, \<lparr>r = 1, g = 2, b = 3, a = 255\<rparr>),
            (QOI_OP_DIFF, \<lparr>r = 255, g = 0, b = 1, a = 255\<rparr>),
            (QOI_OP_INDEX, \<lparr>r = 1, g = 2, b = 3, a = 255\<rparr>)]
       \<and> last_pix s = \<lparr>r = 1, g = 2, b = 3, a = 255\<rparr>
       \<and> Image_get (decoded s) 0 2 = Inr (Some \<lparr>r = 1, g = 2, b = 3, a = 255\<rparr>)
       \<and> memory s ! 23 = \<lparr>r = 1, g = 2, b = 3, a = 255\<rparr>
       \<and> memory s ! 57 = \<lparr>r = 255, g = 0, b = 1, a = 255\<rparr>
       \<and> memory s ! 5 = \<lparr>r = 0, g = 0, b = 0, a = 0\<rparr>"
proof -
  let ?ps = "[(0, 0), (0, 1), (0, 2)] :: (u32 \<times> u32) list"
  let ?s0 = "init_state [0xFE, 1, 2, 3, 0x40, 0x17] (Image_new 3 1)"
  let ?P = "\<lparr>r = 1, g = 2, b = 3, a = 255\<rparr>"
  let ?Q = "\<lparr>r = 255, g = 0, b = 1, a = 255\<rparr>"
  let ?evs = "[(QOI_OP_RGB, ?P), (QOI_OP_DIFF, ?Q), (QOI_OP_INDEX, ?P)]"
  have "\<forall>(i, j) \<in> set ?ps. unat (i * img_width (decoded ?s0) + j) < length (img_a (decoded ?s0))"
    by (simp add: init_state_def Image_new_def)
  from steps_total [OF this] obtain s where s: "steps no_indet ?ps ?s0 = Inr s" by blast
  have ev: "emitted no_indet ?ps ?s0 = ?evs" by code_simp
  have m23: "most_recent 23 ?evs = Some ?P"
    by (simp add: most_recent_def recorded_def qoi_pix_hash_mod)
  have m57: "most_recent 57 ?evs = Some ?Q"
    by (simp add: most_recent_def recorded_def qoi_pix_hash_mod)
  have m5: "most_recent 5 ?evs = None"
    by (simp add: most_recent_def recorded_def qoi_pix_hash_mod)
  note inv = C1_invariant [OF s, unfolded ev]
  from inv have "last_pix s = ?P" "Image_get (decoded s) 0 2 = Inr (Some (last_pix s))"
    by simp_all
  moreover from inv have tab: "k < 64 \<Longrightarrow> memory s ! k = (case most_recent k ?evs of
                  None \<Rightarrow> \<lparr>r = 0, g = 0, b = 0, a = 0\<rparr> | Some p \<Rightarrow> p)" for k
    by blast
  have "memory s ! 23 = ?P" using tab [of 23] by (simp only: m23) simp
  moreover have "memory s ! 57 = ?Q" using tab [of 57] by (simp only: m57) simp
  moreover have "memory s ! 5 = \<lparr>r = 0, g = 0, b = 0, a = 0\<rparr>" using tab [of 5] by (simp only: m5) simp
  ultimately show ?thesis using s ev by simp
qed

end
